theory Spec2Isabelle
  imports Main "HOL-Library.Finite_Map" "HOL-Library.Sublist"
begin

section \<open>JavaScript values\<close>

text \<open>
  The values read from a definitions file. An object is a finite map from property names
  to values, so two objects are equal exactly when they have the same properties with
  equal values, whatever the order they were written in. \<open>undefined\<close> is not a JSON
  value: a property read yields a \<open>json option\<close>, and \<open>None\<close> is \<open>undefined\<close>.
\<close>

datatype json =
    JNull
  | JBool bool
  | JNum int
  | JStr string
  | JArr "json list"
  | JObj "(string, json) fmap"

text \<open>An object literal, written as its list of properties.\<close>

definition obj :: "(string \<times> json) list \<Rightarrow> json" where
  "obj ps = JObj (fmap_of_list ps)"

text \<open>
  \<open>r.k\<close>: the property \<open>k\<close> of \<open>r\<close>. The records of a definitions file are
  objects; none of the names read by the program is a property of a string, a number,
  a boolean or an array.
\<close>

definition getProp :: "json \<Rightarrow> string \<Rightarrow> json option" where
  "getProp r k = (case r of JObj m \<Rightarrow> fmlookup m k | _ \<Rightarrow> None)"

text \<open>
  \<open>a === b\<close>. Primitives are compared by value. Arrays and objects are compared by
  reference, and the two operands of every \<open>===\<close> of the program are read from two
  different records, so they are never the same reference.
\<close>

fun strictEq :: "json option \<Rightarrow> json option \<Rightarrow> bool" where
  "strictEq None None = True"
| "strictEq (Some JNull) (Some JNull) = True"
| "strictEq (Some (JBool a)) (Some (JBool b)) = (a = b)"
| "strictEq (Some (JNum a)) (Some (JNum b)) = (a = b)"
| "strictEq (Some (JStr a)) (Some (JStr b)) = (a = b)"
| "strictEq _ _ = False"

text \<open>The truthiness of a value, as \<open>!\<close>, \<open>||\<close> and \<open>if\<close> read it.\<close>

fun truthy :: "json option \<Rightarrow> bool" where
  "truthy None = False"
| "truthy (Some JNull) = False"
| "truthy (Some (JBool b)) = b"
| "truthy (Some (JNum n)) = (n \<noteq> 0)"
| "truthy (Some (JStr s)) = (s \<noteq> [])"
| "truthy (Some (JArr _)) = True"
| "truthy (Some (JObj _)) = True"

text \<open>
  \<open>isDeepStrictEqual\<close> of node:util on two values parsed from JSON: the same
  structure with the same primitives, the properties of an object in any order. On
  \<open>json\<close> this is equality.
\<close>

definition isDeepStrictEqual :: "json \<Rightarrow> json \<Rightarrow> bool" where
  "isDeepStrictEqual a b = (a = b)"

section \<open>Resource types and identities\<close>

text \<open>The seven keys of a change map and of an Index, in the order of \<open>makeChangeMap\<close>.\<close>

datatype rtype = Vhosts | Queues | Exchanges | Bindings | Users | Permissions | Topic_permissions

definition allTypes :: "rtype list" where
  "allTypes = [Vhosts, Queues, Exchanges, Bindings, Users, Permissions, Topic_permissions]"

text \<open>
  The operations of \<open>deployResources\<close>: the keys \<open>added\<close>, \<open>deleted\<close>, \<open>changed\<close>
  and \<open>implicitlyAffected\<close> of the result of \<open>diff\<close>.
\<close>

datatype operation = Added | Deleted | Changed | ImplicitlyAffected

type_synonym ident = "json option list"

text \<open>
  Modelled from the spec: \<open>Index.js\<close> is not among the sources. The identity key of
  each resource type is the table of the data model: \<open>name\<close> for a vhost and a user,
  \<open>(vhost, name)\<close> for an exchange and a queue, \<open>(vhost, user)\<close> for a permission and a
  topic permission, and \<open>(vhost, source, destination, destination_type, routing_key,
  arguments)\<close> for a binding, the arguments compared structurally.
\<close>

fun identityFields :: "rtype \<Rightarrow> string list" where
  "identityFields Vhosts = [''name'']"
| "identityFields Users = [''name'']"
| "identityFields Exchanges = [''vhost'', ''name'']"
| "identityFields Queues = [''vhost'', ''name'']"
| "identityFields Permissions = [''vhost'', ''user'']"
| "identityFields Topic_permissions = [''vhost'', ''user'']"
| "identityFields Bindings =
     [''vhost'', ''source'', ''destination'', ''destination_type'', ''routing_key'', ''arguments'']"

definition identity :: "rtype \<Rightarrow> json \<Rightarrow> ident" where
  "identity t r = map (getProp r) (identityFields t)"

text \<open>
  Modelled from the spec: a record without enough fields to compute its identity is
  malformed, and building an Index from it is a fatal construction error.
\<close>

definition hasIdentity :: "rtype \<Rightarrow> json \<Rightarrow> bool" where
  "hasIdentity t r = list_all (\<lambda>k. getProp r k \<noteq> None) (identityFields t)"

section \<open>The content-addressed set\<close>

text \<open>
  Modelled from the spec: \<open>HashSet.js\<close> is not among the sources. A HashSet is a
  collection keyed by the identity of its members: it holds at most one member for each
  identity, inserting a record whose identity is already present overwrites the member
  (last write wins), \<open>get\<close> looks a member up by the identity of the record it is given,
  \<open>delete\<close> removes the member of that identity, and \<open>values\<close> iterates over the
  remaining members, in insertion order.
\<close>

datatype HashSet = HashSet (hashFn: "json \<Rightarrow> ident") (members: "json list")

definition HashSet_values :: "HashSet \<Rightarrow> json list" where
  "HashSet_values s = members s"

definition HashSet_size :: "HashSet \<Rightarrow> nat" where
  "HashSet_size s = length (members s)"

definition HashSet_get :: "HashSet \<Rightarrow> json \<Rightarrow> json option" where
  "HashSet_get s item = find (\<lambda>x. hashFn s x = hashFn s item) (members s)"

definition HashSet_delete :: "HashSet \<Rightarrow> json \<Rightarrow> HashSet" where
  "HashSet_delete s item =
     HashSet (hashFn s) (filter (\<lambda>x. hashFn s x \<noteq> hashFn s item) (members s))"

fun overwrite :: "(json \<Rightarrow> ident) \<Rightarrow> json \<Rightarrow> json list \<Rightarrow> json list" where
  "overwrite h r [] = [r]"
| "overwrite h r (x # xs) = (if h x = h r then r # xs else x # overwrite h r xs)"

definition HashSet_add :: "HashSet \<Rightarrow> json \<Rightarrow> HashSet" where
  "HashSet_add s r = HashSet (hashFn s) (overwrite (hashFn s) r (members s))"

section \<open>The Index\<close>

text \<open>
  The errors of a run: a malformed record met while an Index is built, the conflict of
  the options of \<open>deploy\<close>, a \<open>TypeError\<close> of the runtime (a property read of
  \<open>undefined\<close>), the error \<open>Invalid operation "op" on type "type"\<close> of
  \<open>deployResources\<close>, and the reason with which the client rejected a request.
\<close>

datatype error =
    ConstructionError
  | OptionConflict
  | TypeError
  | InvalidOperation operation rtype
  | Rejected json

type_synonym definitions = "rtype \<Rightarrow> json list"

type_synonym Index = "rtype \<Rightarrow> HashSet"

text \<open>
  What the program reads of an ignore index: which records of which type it matches.
\<close>

type_synonym ignoreIndex = "rtype \<Rightarrow> json \<Rightarrow> bool"

definition ignored :: "ignoreIndex option \<Rightarrow> rtype \<Rightarrow> json \<Rightarrow> bool" where
  "ignored ignoreIdx t r = (case ignoreIdx of None \<Rightarrow> False | Some ig \<Rightarrow> ig t r)"

text \<open>
  Modelled from the spec: \<open>Index.fromDefinitions\<close> is not among the sources. The
  definitions hold seven sequences, one for each resource type, a missing sequence
  being empty. For each type every record is inserted into a HashSet keyed by the
  identity of that type; a record that the ignore index matches is skipped; a malformed
  record is a fatal construction error. The second argument is a hint that the diff
  does not read.
\<close>

definition fromDefinitions :: "definitions \<Rightarrow> bool \<Rightarrow> ignoreIndex option \<Rightarrow> error + Index" where
  "fromDefinitions defs flag ignoreIdx =
     (if list_ex (\<lambda>t. list_ex (\<lambda>r. \<not> hasIdentity t r) (defs t)) allTypes
      then Inl ConstructionError
      else Inr (\<lambda>t. fold (\<lambda>r s. HashSet_add s r)
                      (filter (\<lambda>r. \<not> ignored ignoreIdx t r) (defs t))
                      (HashSet (identity t) [])))"

section \<open>diff.js\<close>

record ('a, 'c) changeSets =
  added :: 'a
  deleted :: 'a
  changed :: 'c

record ('a, 'c) classified = "('a, 'c) changeSets" +
  unaffected :: 'a

type_synonym typeChanges = "(json list, (json \<times> json) list) classified"

text \<open>The classification of one item of the first loop of \<open>diffMapsConsuming\<close>.\<close>

definition classify :: "json option \<Rightarrow> json \<Rightarrow> typeChanges \<Rightarrow> typeChanges" where
  "classify beforeItem afterItem acc =
     (case beforeItem of
        None \<Rightarrow> acc\<lparr>added := added acc @ [afterItem]\<rparr>
      | Some b \<Rightarrow>
          if \<not> isDeepStrictEqual b afterItem
          then acc\<lparr>changed := changed acc @ [(b, afterItem)]\<rparr>
          else acc\<lparr>unaffected := unaffected acc @ [afterItem]\<rparr>)"

text \<open>
  The first loop, \<open>for (const afterItem of after.values())\<close>. The body deletes the
  item it is at from \<open>after\<close>, and the iterator of a Map is live, so the next item is
  the first one that remains.
\<close>

function afterLoop :: "HashSet \<Rightarrow> HashSet \<Rightarrow> typeChanges \<Rightarrow> HashSet \<times> HashSet \<times> typeChanges" where
  "afterLoop before after acc =
     (case HashSet_values after of
        [] \<Rightarrow> (before, after, acc)
      | afterItem # _ \<Rightarrow>
          afterLoop (HashSet_delete before afterItem) (HashSet_delete after afterItem)
            (classify (HashSet_get before afterItem) afterItem acc))"
  by pat_completeness auto
termination
  by (relation "measure (\<lambda>(before, after, acc). length (members after))")
     (auto simp: HashSet_values_def HashSet_delete_def less_Suc_eq_le)

declare afterLoop.simps [simp del]

text \<open>The second loop, \<open>for (const beforeItem of before.values())\<close>.\<close>

function beforeLoop :: "HashSet \<Rightarrow> json list \<Rightarrow> HashSet \<times> json list" where
  "beforeLoop before del =
     (case HashSet_values before of
        [] \<Rightarrow> (before, del)
      | beforeItem # _ \<Rightarrow> beforeLoop (HashSet_delete before beforeItem) (del @ [beforeItem]))"
  by pat_completeness auto
termination
  by (relation "measure (\<lambda>(before, del). length (members before))")
     (auto simp: HashSet_values_def HashSet_delete_def less_Suc_eq_le)

declare beforeLoop.simps [simp del]

definition diffMapsConsuming :: "HashSet \<Rightarrow> HashSet \<Rightarrow> typeChanges" where
  "diffMapsConsuming before after =
     (case afterLoop before after \<lparr>added = [], deleted = [], changed = [], unaffected = []\<rparr> of
        (before1, after1, acc) \<Rightarrow>
          (case beforeLoop before1 (deleted acc) of
             (before2, del) \<Rightarrow> acc\<lparr>deleted := del\<rparr>))"

text \<open>A change map: one sequence for each of the seven resource types.\<close>

type_synonym changeMaps = "(rtype \<Rightarrow> json list, rtype \<Rightarrow> (json \<times> json) list) classified"

definition makeChangeMap :: "rtype \<Rightarrow> 'a list" where
  "makeChangeMap = (\<lambda>t. [])"

definition collectDiff :: "rtype \<Rightarrow> HashSet \<Rightarrow> HashSet \<Rightarrow> changeMaps \<Rightarrow> changeMaps" where
  "collectDiff key beforeMap afterMap st =
     (let changes = diffMapsConsuming beforeMap afterMap in
      st\<lparr>added := (added st)(key := added st key @ added changes),
         deleted := (deleted st)(key := deleted st key @ deleted changes),
         changed := (changed st)(key := changed st key @ changed changes),
         unaffected := (unaffected st)(key := unaffected st key @ unaffected changes)\<rparr>)"

text \<open>
  The loop over \<open>changed.exchanges\<close> of the filter: \<open>ex\<close> is the before record of
  a changed exchange, \<open>b\<close> the binding.
\<close>

fun touchesChangedExchange :: "(json \<times> json) list \<Rightarrow> json \<Rightarrow> bool" where
  "touchesChangedExchange [] b = False"
| "touchesChangedExchange ((ex, after) # rest) b =
     (if strictEq (getProp ex ''vhost'') (getProp b ''vhost'')
      then (if strictEq (getProp ex ''name'') (getProp b ''source'') \<or>
               (strictEq (getProp b ''destination_type'') (Some (JStr ''exchange'')) \<and>
                strictEq (getProp ex ''name'') (getProp b ''destination''))
            then True
            else touchesChangedExchange rest b)
      else touchesChangedExchange rest b)"

text \<open>The loop over \<open>changed.queues\<close> of the filter.\<close>

fun touchesChangedQueue :: "(json \<times> json) list \<Rightarrow> json \<Rightarrow> bool" where
  "touchesChangedQueue [] b = False"
| "touchesChangedQueue ((q, after) # rest) b =
     (if strictEq (getProp q ''vhost'') (getProp b ''vhost'')
      then (if strictEq (getProp q ''name'') (getProp b ''destination'') \<and>
               strictEq (getProp b ''destination_type'') (Some (JStr ''queue''))
            then True
            else touchesChangedQueue rest b)
      else touchesChangedQueue rest b)"

text \<open>The predicate of \<open>unaffected.bindings.filter\<close>.\<close>

definition implicitlyAffectedBinding ::
  "(json \<times> json) list \<Rightarrow> (json \<times> json) list \<Rightarrow> json \<Rightarrow> bool" where
  "implicitlyAffectedBinding changedExchanges changedQueues b =
     (if touchesChangedExchange changedExchanges b then True
      else if \<not> strictEq (getProp b ''destination_type'') (Some (JStr ''queue'')) then False
      else touchesChangedQueue changedQueues b)"

record implicitly =
  bindings :: "json list"

record diffResult = "(rtype \<Rightarrow> json list, rtype \<Rightarrow> (json \<times> json) list) changeSets" +
  implicitlyAffected :: implicitly

text \<open>
  The first line of \<open>diff\<close>: the ignore index is built when the ignore list is a
  non-empty array. \<open>Index.fromIgnoreList\<close> is not among the sources and is a
  parameter; \<open>ignoreList\<close> is \<open>None\<close> when it is not an array.
\<close>

definition ignoreIndexOf :: "(json list \<Rightarrow> ignoreIndex) \<Rightarrow> json list option \<Rightarrow> ignoreIndex option" where
  "ignoreIndexOf fromIgnoreList ignoreList =
     (case ignoreList of
        None \<Rightarrow> None
      | Some l \<Rightarrow> if l \<noteq> [] then Some (fromIgnoreList l) else None)"

text \<open>
  The body of \<open>diff\<close> up to its \<open>return\<close>: the four change maps and the implicitly
  affected bindings.
\<close>

definition diffClassified ::
  "(json list \<Rightarrow> ignoreIndex) \<Rightarrow> definitions \<Rightarrow> definitions \<Rightarrow> json list option
     \<Rightarrow> error + (changeMaps \<times> json list)" where
  "diffClassified fromIgnoreList beforeDef afterDef ignoreList =
     (let ignoreIdx = ignoreIndexOf fromIgnoreList ignoreList
      in case fromDefinitions beforeDef False ignoreIdx of
           Inl e \<Rightarrow> Inl e
         | Inr before \<Rightarrow>
             (case fromDefinitions afterDef False ignoreIdx of
                Inl e \<Rightarrow> Inl e
              | Inr after \<Rightarrow>
                  (let st0 = \<lparr>added = makeChangeMap, deleted = makeChangeMap,
                              changed = makeChangeMap, unaffected = makeChangeMap\<rparr>;
                       st1 = collectDiff Vhosts (before Vhosts) (after Vhosts) st0;
                       st2 = collectDiff Queues (before Queues) (after Queues) st1;
                       st3 = collectDiff Exchanges (before Exchanges) (after Exchanges) st2;
                       st4 = collectDiff Bindings (before Bindings) (after Bindings) st3;
                       implicitlyAffectedBindings =
                         filter (implicitlyAffectedBinding (changed st4 Exchanges) (changed st4 Queues))
                           (unaffected st4 Bindings);
                       st5 = collectDiff Users (before Users) (after Users) st4;
                       st6 = collectDiff Permissions (before Permissions) (after Permissions) st5;
                       st7 = collectDiff Topic_permissions (before Topic_permissions)
                               (after Topic_permissions) st6
                   in Inr (st7, implicitlyAffectedBindings))))"

text \<open>\<open>diff\<close>: what it returns of the classification.\<close>

definition diff ::
  "(json list \<Rightarrow> ignoreIndex) \<Rightarrow> definitions \<Rightarrow> definitions \<Rightarrow> json list option
     \<Rightarrow> error + diffResult" where
  "diff fromIgnoreList beforeDef afterDef ignoreList =
     (case diffClassified fromIgnoreList beforeDef afterDef ignoreList of
        Inl e \<Rightarrow> Inl e
      | Inr (st, implicitlyAffectedBindings) \<Rightarrow>
          Inr \<lparr>added = added st, deleted = deleted st, changed = changed st,
               implicitlyAffected = \<lparr>bindings = implicitlyAffectedBindings\<rparr>\<rparr>)"

text \<open>
  A helper of the proofs: the changed pairs of one resource type in closed form, the
  members \<open>xs\<close> of the after set that the before set \<open>bs\<close> holds under the same
  identity with another content.
\<close>

definition changedOf :: "(json \<Rightarrow> ident) \<Rightarrow> json list \<Rightarrow> json list \<Rightarrow> (json \<times> json) list" where
  "changedOf k bs xs =
     List.map_filter (\<lambda>a. case find (\<lambda>x. k x = k a) bs of
                             None \<Rightarrow> None
                           | Some b \<Rightarrow> if b \<noteq> a then Some (b, a) else None) xs"

section \<open>deploy.js\<close>

datatype verb = GET | PUT | POST | DELETE

text \<open>
  The tagged template \<open>url\<close>: every value is passed through \<open>encodeURIComponent\<close>
  and put after the literal part of the same index, and the last literal part ends the
  result. \<open>encodeURIComponent\<close> is a builtin of the language and a parameter here; it
  is applied to whatever the property read yields, \<open>undefined\<close> included.
\<close>

definition url :: "(json option \<Rightarrow> string) \<Rightarrow> string list \<Rightarrow> json option list \<Rightarrow> string" where
  "url encodeURIComponent strs vals =
     concat (map (\<lambda>(str, val). str @ encodeURIComponent val) (zip strs vals)) @ last strs"

text \<open>
  The table \<open>T\<close>, read as \<open>T[r.destination_type]\<close>. A destination type of a
  definitions file is the string \<open>exchange\<close> or \<open>queue\<close>; any other value finds no
  entry.
\<close>

fun T :: "json option \<Rightarrow> json option" where
  "T (Some (JStr s)) =
     (if s = ''exchange'' then Some (JStr ''e'')
      else if s = ''queue'' then Some (JStr ''q'')
      else None)"
| "T v = None"

text \<open>\<open>a || b\<close>.\<close>

definition orElse :: "json option \<Rightarrow> json option \<Rightarrow> json option" where
  "orElse a b = (if truthy a then a else b)"

text \<open>The table \<open>C\<close>: for an operation and a resource type, the method and the path.\<close>

fun C_added :: "(json option \<Rightarrow> string) \<Rightarrow> rtype \<Rightarrow> json \<Rightarrow> verb \<times> string" where
  "C_added enc Vhosts r = (PUT, url enc [''/api/vhosts/'', ''''] [getProp r ''name''])"
| "C_added enc Users r = (PUT, url enc [''/api/users/'', ''''] [getProp r ''name''])"
| "C_added enc Queues r =
     (PUT, url enc [''/api/queues/'', ''/'', ''''] [getProp r ''vhost'', getProp r ''name''])"
| "C_added enc Exchanges r =
     (PUT, url enc [''/api/exchanges/'', ''/'', ''''] [getProp r ''vhost'', getProp r ''name''])"
| "C_added enc Bindings r =
     (POST, url enc [''/api/bindings/'', ''/e/'', ''/'', ''/'', '''']
              [getProp r ''vhost'', getProp r ''source'', T (getProp r ''destination_type''),
               getProp r ''destination''])"
| "C_added enc Permissions r =
     (PUT, url enc [''/api/permissions/'', ''/'', ''''] [getProp r ''vhost'', getProp r ''user''])"
| "C_added enc Topic_permissions r =
     (PUT, url enc [''/api/topic-permissions/'', ''/'', '''']
             [getProp r ''vhost'', getProp r ''user''])"

fun C_deleted :: "(json option \<Rightarrow> string) \<Rightarrow> rtype \<Rightarrow> json \<Rightarrow> verb \<times> string" where
  "C_deleted enc Vhosts r = (DELETE, url enc [''/api/vhosts/'', ''''] [getProp r ''name''])"
| "C_deleted enc Users r = (DELETE, url enc [''/api/users/'', ''''] [getProp r ''name''])"
| "C_deleted enc Queues r =
     (DELETE, url enc [''/api/queues/'', ''/'', ''''] [getProp r ''vhost'', getProp r ''name''])"
| "C_deleted enc Exchanges r =
     (DELETE, url enc [''/api/exchanges/'', ''/'', ''''] [getProp r ''vhost'', getProp r ''name''])"
| "C_deleted enc Bindings r =
     (DELETE, url enc [''/api/bindings/'', ''/e/'', ''/'', ''/'', ''/'', '''']
                [getProp r ''vhost'', getProp r ''source'', T (getProp r ''destination_type''),
                 getProp r ''destination'',
                 orElse (getProp r ''properties_key'') (Some (JStr ''~''))])"
| "C_deleted enc Permissions r =
     (DELETE, url enc [''/api/permissions/'', ''/'', ''''] [getProp r ''vhost'', getProp r ''user''])"
| "C_deleted enc Topic_permissions r =
     (DELETE, url enc [''/api/topic-permissions/'', ''/'', '''']
                [getProp r ''vhost'', getProp r ''user''])"

fun C_changed :: "(json option \<Rightarrow> string) \<Rightarrow> rtype \<Rightarrow> (json \<Rightarrow> verb \<times> string) option" where
  "C_changed enc Vhosts = Some (\<lambda>r. (PUT, url enc [''/api/vhosts/'', ''''] [getProp r ''name'']))"
| "C_changed enc Users = Some (\<lambda>r. (PUT, url enc [''/api/users/'', ''''] [getProp r ''name'']))"
| "C_changed enc Permissions =
     Some (\<lambda>r. (PUT, url enc [''/api/permissions/'', ''/'', '''']
                       [getProp r ''vhost'', getProp r ''user'']))"
| "C_changed enc Topic_permissions =
     Some (\<lambda>r. (PUT, url enc [''/api/topic-permissions/'', ''/'', '''']
                       [getProp r ''vhost'', getProp r ''user'']))"
| "C_changed enc Queues = None"
| "C_changed enc Exchanges = None"
| "C_changed enc Bindings = None"

text \<open>
  \<open>C[op]\<close> is \<open>None\<close> where the table has no such operation, and \<open>C[op][type]\<close> is
  \<open>None\<close> where the operation has no such type.
\<close>

fun C :: "(json option \<Rightarrow> string) \<Rightarrow> operation
            \<Rightarrow> (rtype \<Rightarrow> (json \<Rightarrow> verb \<times> string) option) option" where
  "C enc Added = Some (\<lambda>t. Some (C_added enc t))"
| "C enc Deleted = Some (\<lambda>t. Some (C_deleted enc t))"
| "C enc Changed = Some (C_changed enc)"
| "C enc ImplicitlyAffected = None"

text \<open>
  What a run does that can be observed: the requests handed to the client and the lines
  written to the console. A line is kept as its kind and the numbers it prints:
  \<open>LogSkipped n operation type\<close> is \<open>skipped n operation type operations\<close>, and
  \<open>LogBatch operation operationOverride type succeeded failed\<close> is the line that ends
  a batch, which prints the number of succeeded requests and, when it is not zero, the
  number of failed ones.
\<close>

datatype event =
    Request verb string json
  | WarnDryRun
  | WarnVhostsLackPermissions
  | WarnIgnoringChanged nat
  | WarnIgnoredDeleted nat
  | LogSkipped nat operation rtype
  | LogBatch operation "operation option" rtype nat nat

fun isRequest :: "event \<Rightarrow> bool" where
  "isRequest (Request m u body) = True"
| "isRequest e = False"

definition requestsOf :: "event list \<Rightarrow> event list" where
  "requestsOf evs = filter isRequest evs"

text \<open>
  The client, \<open>RabbitClient.js\<close>, is not among the sources and is a parameter:
  \<open>client.request(method, url, body)\<close> is a function of the state of the server that
  yields \<open>None\<close> when the promise is fulfilled, \<open>Some reason\<close> when it is rejected,
  and the next state.
\<close>

type_synonym 's client = "'s \<Rightarrow> verb \<Rightarrow> string \<Rightarrow> json \<Rightarrow> json option \<times> 's"

datatype settled = Fulfilled | RejectedWith error

fun isFulfilled :: "settled \<Rightarrow> bool" where
  "isFulfilled Fulfilled = True"
| "isFulfilled (RejectedWith e) = False"

text \<open>
  \<open>changes[operation][type]\<close>. An entry of \<open>changed\<close> is the object
  \<open>{ before, after }\<close>; \<open>implicitlyAffected\<close> has the one key \<open>bindings\<close>.
\<close>

definition pairObj :: "json \<times> json \<Rightarrow> json" where
  "pairObj p = obj [(''before'', fst p), (''after'', snd p)]"

fun entries :: "diffResult \<Rightarrow> operation \<Rightarrow> rtype \<Rightarrow> json list option" where
  "entries changes Added t = Some (added changes t)"
| "entries changes Deleted t = Some (deleted changes t)"
| "entries changes Changed t = Some (map pairObj (changed changes t))"
| "entries changes ImplicitlyAffected t =
     (if t = Bindings then Some (bindings (implicitlyAffected changes)) else None)"

text \<open>\<open>resource.after || resource\<close>.\<close>

definition resourceArgOf :: "json \<Rightarrow> json" where
  "resourceArgOf resource =
     (case getProp resource ''after'' of
        None \<Rightarrow> resource
      | Some after \<Rightarrow> if truthy (Some after) then after else resource)"

text \<open>
  The body of the \<open>map\<close> of \<open>deployResources\<close> for one resource: the promise it
  returns settles as fulfilled or rejected, and at most one request is handed to the
  client. The delay before the request is not modelled.
\<close>

definition dispatch ::
  "'s client \<Rightarrow> (json option \<Rightarrow> string) \<Rightarrow> operation \<Rightarrow> rtype \<Rightarrow> operation option
     \<Rightarrow> json \<Rightarrow> 's \<Rightarrow> settled \<times> event list \<times> 's" where
  "dispatch request enc operation type operationOverride resource s =
     (let op = (case operationOverride of None \<Rightarrow> operation | Some ov \<Rightarrow> ov) in
      case C enc op of
        None \<Rightarrow> (RejectedWith TypeError, [], s)
      | Some table \<Rightarrow>
          (case table type of
             None \<Rightarrow> (RejectedWith (InvalidOperation op type), [], s)
           | Some f \<Rightarrow>
               (let resourceArg = resourceArgOf resource in
                case f resourceArg of
                  (method, u) \<Rightarrow>
                    (case request s method u resourceArg of
                       (None, s') \<Rightarrow> (Fulfilled, [Request method u resourceArg], s')
                     | (Some reason, s') \<Rightarrow>
                         (RejectedWith (Rejected reason), [Request method u resourceArg], s')))))"

text \<open>
  \<open>Promise.allSettled\<close> over the eligible resources: every one of them is dispatched,
  in the order of the sequence, and every outcome is collected.
\<close>

fun allSettled ::
  "'s client \<Rightarrow> (json option \<Rightarrow> string) \<Rightarrow> operation \<Rightarrow> rtype \<Rightarrow> operation option
     \<Rightarrow> json list \<Rightarrow> 's \<Rightarrow> settled list \<times> event list \<times> 's" where
  "allSettled request enc operation type operationOverride [] s = ([], [], s)"
| "allSettled request enc operation type operationOverride (resource # rest) s =
     (case dispatch request enc operation type operationOverride resource s of
        (outcome, evs, s1) \<Rightarrow>
          (case allSettled request enc operation type operationOverride rest s1 of
             (outcomes, evs', s2) \<Rightarrow> (outcome # outcomes, evs @ evs', s2)))"

text \<open>Whether the filter of \<open>deployResources\<close> keeps an entry.\<close>

definition kept :: "(json \<Rightarrow> bool) option \<Rightarrow> json \<Rightarrow> bool" where
  "kept filterFn resource = (case filterFn of None \<Rightarrow> True | Some f \<Rightarrow> f resource)"

definition deployResources ::
  "'s client \<Rightarrow> (json option \<Rightarrow> string) \<Rightarrow> diffResult \<Rightarrow> operation \<Rightarrow> rtype
     \<Rightarrow> operation option \<Rightarrow> (json \<Rightarrow> bool) option \<Rightarrow> 's \<Rightarrow> (error + unit) \<times> event list \<times> 's" where
  "deployResources request enc changes operation type operationOverride filterFn s =
     (case entries changes operation type of
        None \<Rightarrow> (Inl TypeError, [], s)
      | Some es \<Rightarrow>
          if es \<noteq> [] then
            (let skipped = filter (\<lambda>r. \<not> kept filterFn r) es in
             case allSettled request enc operation type operationOverride
                    (filter (kept filterFn) es) s of
               (result, evs, s') \<Rightarrow>
                 (let succeeded = filter isFulfilled result;
                      failed = filter (\<lambda>r. \<not> isFulfilled r) result;
                      logs = (if skipped \<noteq> [] then [LogSkipped (length skipped) operation type] else [])
                             @ [LogBatch operation operationOverride type (length succeeded)
                                  (length result - length succeeded)]
                  in case failed of
                       RejectedWith reason # _ \<Rightarrow> (Inl reason, evs @ logs, s')
                     | _ \<Rightarrow> (Inr (), evs @ logs, s')))
          else (Inr (), [], s))"

text \<open>
  A call of \<open>deployResources\<close> in \<open>deploy\<close>: the operation, the type, the operation
  override and the filter. \<open>deploy\<close> awaits each call before it makes the next one, and
  the error a call raises ends the run.
\<close>

type_synonym phase = "operation \<times> rtype \<times> operation option \<times> (json \<Rightarrow> bool) option"

fun runPhases ::
  "'s client \<Rightarrow> (json option \<Rightarrow> string) \<Rightarrow> diffResult \<Rightarrow> phase list \<Rightarrow> 's
     \<Rightarrow> (error + unit) \<times> event list \<times> 's" where
  "runPhases request enc changes [] s = (Inr (), [], s)"
| "runPhases request enc changes ((operation, type, operationOverride, filterFn) # rest) s =
     (case deployResources request enc changes operation type operationOverride filterFn s of
        (Inl e, evs, s1) \<Rightarrow> (Inl e, evs, s1)
      | (Inr u, evs, s1) \<Rightarrow>
          (case runPhases request enc changes rest s1 of
             (r, evs', s2) \<Rightarrow> (r, evs @ evs', s2)))"

record options =
  dryRun :: bool
  noDeletions :: bool
  recreateChanged :: bool

definition mutableResources :: "rtype list" where
  "mutableResources = [Users, Permissions, Topic_permissions]"

text \<open>
  \<open>Object.entries(changes.changed).reduce(...)\<close>: the entries of a change map come in
  the order of its keys.
\<close>

definition changedResourceCount :: "diffResult \<Rightarrow> nat" where
  "changedResourceCount changes =
     foldl (\<lambda>acc t. acc + (if t \<in> set mutableResources then 0
                             else length (changed changes t))) 0 allTypes"

definition deletedResourceCount :: "diffResult \<Rightarrow> nat" where
  "deletedResourceCount changes = foldl (\<lambda>acc t. acc + length (deleted changes t)) 0 allTypes"

definition hasAddedPermissionsForVhosts :: "diffResult \<Rightarrow> bool" where
  "hasAddedPermissionsForVhosts changes =
     list_all (\<lambda>v. \<not> truthy (find (\<lambda>p. strictEq (getProp p ''vhost'') (getProp v ''name''))
                                (added changes Permissions)))
       (added changes Vhosts)"

text \<open>
  The filter \<open>notInDeletedVhost\<close>: when vhosts are deleted, it yields what \<open>find\<close>
  yields, the deleted vhost whose property \<open>vhost\<close> is the \<open>vhost\<close> of the record;
  otherwise it is constantly true.
\<close>

definition notInDeletedVhost :: "diffResult \<Rightarrow> json \<Rightarrow> bool" where
  "notInDeletedVhost changes =
     (if deleted changes Vhosts \<noteq> []
      then (\<lambda>r. truthy (find (\<lambda>d. strictEq (getProp r ''vhost'') (getProp d ''vhost''))
                          (deleted changes Vhosts)))
      else (\<lambda>r. True))"

text \<open>The calls of \<open>deployResources\<close> that \<open>deploy\<close> makes, in the order it makes them.\<close>

definition deployPhases :: "diffResult \<Rightarrow> options \<Rightarrow> phase list" where
  "deployPhases changes opts =
     [(Added, Vhosts, None, None),
      (Added, Users, None, None),
      (Added, Exchanges, None, None),
      (Added, Queues, None, None),
      (Changed, Vhosts, None, None),
      (Changed, Users, None, None)]
     @ (if recreateChanged opts
        then [(Changed, Exchanges, Some Deleted, None),
              (Changed, Exchanges, Some Added, None),
              (Changed, Queues, Some Deleted, None),
              (Changed, Queues, Some Added, None),
              (Changed, Bindings, Some Deleted, None),
              (Changed, Bindings, Some Added, None),
              (ImplicitlyAffected, Bindings, Some Added, None)]
        else [])
     @ [(Added, Bindings, None, None),
        (Added, Permissions, None, None),
        (Added, Topic_permissions, None, None),
        (Changed, Permissions, None, None),
        (Changed, Topic_permissions, None, None)]
     @ (if \<not> noDeletions opts
        then [(Deleted, Topic_permissions, None, None),
              (Deleted, Permissions, None, Some (notInDeletedVhost changes)),
              (Deleted, Users, None, Some (notInDeletedVhost changes)),
              (Deleted, Bindings, None, None),
              (Deleted, Queues, None, None),
              (Deleted, Exchanges, None, None),
              (Deleted, Vhosts, None, None)]
        else [])"

text \<open>
  \<open>deploy\<close>, from the result \<open>changes\<close> of \<open>diffServer\<close> on: \<open>deploy.utils.js\<close> is
  not among the sources, and \<open>diffServer\<close> yields the diff of the definitions of the
  server against the desired ones. The result is the error that ended the run, if any,
  with what the run did and the state it left the server in.
\<close>

definition deploy ::
  "'s client \<Rightarrow> (json option \<Rightarrow> string) \<Rightarrow> diffResult \<Rightarrow> options \<Rightarrow> 's
     \<Rightarrow> (error + unit) \<times> event list \<times> 's" where
  "deploy request enc changes opts s =
     (let warnDryRun = (if dryRun opts then [WarnDryRun] else []);
          warnPermissions =
            (if added changes Vhosts \<noteq> [] \<and> hasAddedPermissionsForVhosts changes
             then [WarnVhostsLackPermissions] else [])
      in if noDeletions opts \<and> recreateChanged opts
         then (Inl OptionConflict, warnDryRun @ warnPermissions, s)
         else
           (let warnChanged =
                  (if changedResourceCount changes \<noteq> 0 \<and> \<not> recreateChanged opts
                   then [WarnIgnoringChanged (changedResourceCount changes)] else [])
            in case runPhases request enc changes (deployPhases changes opts) s of
                 (Inl e, evs, s') \<Rightarrow> (Inl e, warnDryRun @ warnPermissions @ warnChanged @ evs, s')
               | (Inr u, evs, s') \<Rightarrow>
                   (Inr (),
                    warnDryRun @ warnPermissions @ warnChanged @ evs
                    @ (if noDeletions opts \<and> deletedResourceCount changes \<noteq> 0
                       then [WarnIgnoredDeleted (deletedResourceCount changes)] else []),
                    s')))"

text \<open>
  For the statements about a batch: the requests that the entries \<open>es\<close> of a batch
  give rise to, one for each entry when the table has the operation and the type.
\<close>

definition callsFor ::
  "(json option \<Rightarrow> string) \<Rightarrow> operation \<Rightarrow> rtype \<Rightarrow> operation option \<Rightarrow> json list \<Rightarrow> event list" where
  "callsFor enc operation type operationOverride es =
     (case C enc (case operationOverride of None \<Rightarrow> operation | Some ov \<Rightarrow> ov) of
        None \<Rightarrow> []
      | Some table \<Rightarrow>
          (case table type of
             None \<Rightarrow> []
           | Some f \<Rightarrow>
               map (\<lambda>resource. Request (fst (f (resourceArgOf resource)))
                                  (snd (f (resourceArgOf resource))) (resourceArgOf resource)) es))"

text \<open>The requests of one call of \<open>deployResources\<close>: those of the entries its filter keeps.\<close>

fun phaseCalls :: "(json option \<Rightarrow> string) \<Rightarrow> diffResult \<Rightarrow> phase \<Rightarrow> event list" where
  "phaseCalls enc changes (operation, type, operationOverride, filterFn) =
     (case entries changes operation type of
        None \<Rightarrow> []
      | Some es \<Rightarrow> callsFor enc operation type operationOverride (filter (kept filterFn) es))"

text \<open>For the examples: a server that fulfils every request, and one that rejects the paths in a list.\<close>

definition accepting :: "unit client" where
  "accepting s m u body = (None, s)"

definition rejecting :: "string list \<Rightarrow> unit client" where
  "rejecting paths s m u body = (if u \<in> set paths then (Some (JStr u), s) else (None, s))"

text \<open>
  For the examples: \<open>encodeURIComponent\<close> on \<open>undefined\<close> and on the strings of
  unreserved characters, which it leaves as they are. The examples apply it to nothing else.
\<close>

fun plain :: "json option \<Rightarrow> string" where
  "plain (Some (JStr s)) = s"
| "plain v = ''undefined''"

section \<open>Examples\<close>

text \<open>
  Two snapshots. From the first to the second, queue \<open>q1\<close> gains a flag, queue \<open>q2\<close>
  appears, queue \<open>q3\<close> disappears, exchange \<open>ex1\<close> loses its flag, and the binding from
  \<open>ex1\<close> to \<open>q1\<close> stays as it is.
\<close>

definition q1 :: json where
  "q1 = obj [(''vhost'', JStr ''/''), (''name'', JStr ''q1'')]"

definition q1' :: json where
  "q1' = obj [(''vhost'', JStr ''/''), (''name'', JStr ''q1''), (''durable'', JBool True)]"

definition q2 :: json where
  "q2 = obj [(''vhost'', JStr ''/''), (''name'', JStr ''q2'')]"

definition q3 :: json where
  "q3 = obj [(''vhost'', JStr ''/''), (''name'', JStr ''q3'')]"

definition ex1 :: json where
  "ex1 = obj [(''vhost'', JStr ''/''), (''name'', JStr ''ex1''), (''durable'', JBool True)]"

definition ex1' :: json where
  "ex1' = obj [(''vhost'', JStr ''/''), (''name'', JStr ''ex1'')]"

definition b1 :: json where
  "b1 = obj [(''vhost'', JStr ''/''), (''source'', JStr ''ex1''), (''destination'', JStr ''q1''),
             (''destination_type'', JStr ''queue''), (''routing_key'', JStr ''''),
             (''arguments'', obj [])]"

definition exBefore :: definitions where
  "exBefore = (\<lambda>t. [])(Queues := [q1, q3], Exchanges := [ex1], Bindings := [b1])"

definition exAfter :: definitions where
  "exAfter = (\<lambda>t. [])(Queues := [q1', q2], Exchanges := [ex1'], Bindings := [b1])"

definition noIgnoreList :: "json list \<Rightarrow> ignoreIndex" where
  "noIgnoreList l = (\<lambda>t r. False)"

text \<open>
  The lines that a batch with the entries \<open>es\<close> and the outcomes \<open>result\<close> writes: the
  number of skipped entries when there are any, then the number of fulfilled and of
  rejected requests.
\<close>

definition batchLogs :: "operation \<Rightarrow> rtype \<Rightarrow> operation option \<Rightarrow> (json \<Rightarrow> bool) option
     \<Rightarrow> json list \<Rightarrow> settled list \<Rightarrow> event list" where
  "batchLogs operation type ov filterFn es result =
     (if filter (\<lambda>r. \<not> kept filterFn r) es \<noteq> []
      then [LogSkipped (length (filter (\<lambda>r. \<not> kept filterFn r) es)) operation type] else [])
     @ [LogBatch operation ov type (length (filter isFulfilled result))
          (length (filter (\<lambda>r. \<not> isFulfilled r) result))]"

text \<open>Records and change sets for runs of \<open>deploy\<close>.\<close>

definition vh1 :: json where
  "vh1 = obj [(''name'', JStr ''v1'')]"

definition vh1' :: json where
  "vh1' = obj [(''name'', JStr ''v1''), (''tracing'', JBool True)]"

definition vh2 :: json where
  "vh2 = obj [(''name'', JStr ''v2'')]"

definition qv1 :: json where
  "qv1 = obj [(''vhost'', JStr ''v1''), (''name'', JStr ''jobs'')]"

definition bob :: json where
  "bob = obj [(''name'', JStr ''bob'')]"

definition permV2 :: json where
  "permV2 = obj [(''vhost'', JStr ''v2''), (''user'', JStr ''bob'')]"

definition noChanges :: diffResult where
  "noChanges = \<lparr>added = (\<lambda>t. []), deleted = (\<lambda>t. []), changed = (\<lambda>t. []),
                 implicitlyAffected = \<lparr>bindings = []\<rparr>\<rparr>"

text \<open>Two vhosts, a user and a queue of the first vhost are added.\<close>

definition exCreate :: diffResult where
  "exCreate = noChanges\<lparr>added := (\<lambda>t. [])(Vhosts := [vh1, vh2], Queues := [qv1], Users := [bob])\<rparr>"

text \<open>Vhost \<open>v1\<close> is deleted, and so is a permission of vhost \<open>v2\<close>, which stays.\<close>

definition exCascade :: diffResult where
  "exCascade = noChanges\<lparr>deleted := (\<lambda>t. [])(Vhosts := [vh1], Permissions := [permV2])\<rparr>"

text \<open>Vhost \<open>v1\<close> and exchange \<open>ex1\<close> are changed.\<close>

definition exChanged :: diffResult where
  "exChanged = noChanges\<lparr>changed := (\<lambda>t. [])(Vhosts := [(vh1, vh1')], Exchanges := [(ex1, ex1')])\<rparr>"

definition defaults :: options where
  "defaults = \<lparr>dryRun = False, noDeletions = False, recreateChanged = False\<rparr>"

section \<open>Properties of the diff\<close>

lemma find_filter_same:
  "(\<And>x. P x \<Longrightarrow> Q x) \<Longrightarrow> find P (filter Q xs) = find P xs"
  by (induction xs) auto

lemma filter_distinct_head:
  "k a \<notin> k ` set xs \<Longrightarrow> filter (\<lambda>x. k x \<noteq> k a) xs = xs"
  by (induction xs) auto

lemma afterLoop_closed:
  "distinct (map k xs) \<Longrightarrow>
   afterLoop (HashSet k bs) (HashSet k xs) acc =
     (HashSet k (filter (\<lambda>b. k b \<notin> k ` set xs) bs), HashSet k [],
      acc\<lparr>added := added acc @ filter (\<lambda>a. find (\<lambda>x. k x = k a) bs = None) xs,
          changed := changed acc @ changedOf k bs xs,
          unaffected := unaffected acc @ filter (\<lambda>a. find (\<lambda>x. k x = k a) bs = Some a) xs\<rparr>)"
proof (induction xs arbitrary: bs acc)
  case Nil
  show ?case
    by (subst afterLoop.simps) (simp add: HashSet_values_def changedOf_def List.map_filter_simps)
next
  case (Cons a xs)
  have d: "distinct (map k xs)" and na: "k a \<notin> k ` set xs"
    using Cons.prems by auto
  have del_after: "HashSet_delete (HashSet k (a # xs)) a = HashSet k xs"
    using na by (simp add: HashSet_delete_def filter_distinct_head)
  let ?bs' = "filter (\<lambda>x. k x \<noteq> k a) bs"
  have del_before: "HashSet_delete (HashSet k bs) a = HashSet k ?bs'"
    by (simp add: HashSet_delete_def)
  have fnd: "\<And>a'. a' \<in> set xs \<Longrightarrow> find (\<lambda>x. k x = k a') ?bs' = find (\<lambda>x. k x = k a') bs"
    using na by (intro find_filter_same) force
  have f1: "filter (\<lambda>a'. find (\<lambda>x. k x = k a') ?bs' = None) xs
            = filter (\<lambda>a'. find (\<lambda>x. k x = k a') bs = None) xs"
    by (rule filter_cong) (simp_all add: fnd)
  have f2: "filter (\<lambda>a'. find (\<lambda>x. k x = k a') ?bs' = Some a') xs
            = filter (\<lambda>a'. find (\<lambda>x. k x = k a') bs = Some a') xs"
    by (rule filter_cong) (simp_all add: fnd)
  have f3: "changedOf k ?bs' xs = changedOf k bs xs"
    unfolding changedOf_def List.map_filter_def
    by (intro arg_cong[where f="map _"] filter_cong map_cong refl | simp add: fnd)+
  have f4: "filter (\<lambda>b. k b \<notin> k ` set xs) ?bs' = filter (\<lambda>b. k b \<notin> k ` set (a # xs)) bs"
    by (induction bs) auto
  show ?case
    apply (subst afterLoop.simps)
    apply (simp only: HashSet_values_def HashSet.sel list.case del_after del_before HashSet_get_def)
    apply (subst Cons.IH[OF d])
    apply (simp only: f1 f2 f3 f4)
    apply (cases "find (\<lambda>x. k x = k a) bs")
     apply (simp_all add: classify_def isDeepStrictEqual_def changedOf_def List.map_filter_simps)
    done
qed

lemma beforeLoop_closed:
  "distinct (map k bs) \<Longrightarrow> beforeLoop (HashSet k bs) del = (HashSet k [], del @ bs)"
proof (induction bs arbitrary: del)
  case Nil
  show ?case by (subst beforeLoop.simps) (simp add: HashSet_values_def)
next
  case (Cons b bs)
  have "HashSet_delete (HashSet k (b # bs)) b = HashSet k bs"
    using Cons.prems by (simp add: HashSet_delete_def filter_distinct_head)
  then show ?case
    using Cons by (subst beforeLoop.simps) (simp add: HashSet_values_def)
qed

lemma diffMapsConsuming_closed:
  assumes "distinct (map k xs)" "distinct (map k bs)"
  shows "diffMapsConsuming (HashSet k bs) (HashSet k xs) =
     \<lparr>added = filter (\<lambda>a. find (\<lambda>x. k x = k a) bs = None) xs,
      deleted = filter (\<lambda>b. k b \<notin> k ` set xs) bs,
      changed = changedOf k bs xs,
      unaffected = filter (\<lambda>a. find (\<lambda>x. k x = k a) bs = Some a) xs\<rparr>"
proof -
  have "distinct (map k (filter (\<lambda>b. k b \<notin> k ` set xs) bs))"
    using assms(2) by (simp add: distinct_map_filter)
  then show ?thesis
    unfolding diffMapsConsuming_def
    by (simp add: afterLoop_closed[OF assms(1)] beforeLoop_closed)
qed

lemma overwrite_keys: "h ` set (overwrite h r xs) = insert (h r) (h ` set xs)"
  by (induction xs) auto

lemma overwrite_distinct: "distinct (map h xs) \<Longrightarrow> distinct (map h (overwrite h r xs))"
proof (induction xs)
  case Nil
  show ?case by simp
next
  case (Cons x xs)
  then show ?case
    using overwrite_keys[of h r xs] by (auto simp: image_iff)
qed

lemma fold_add_shape:
  "distinct (map h ms) \<Longrightarrow>
   \<exists>ms'. fold (\<lambda>r s. HashSet_add s r) rs (HashSet h ms) = HashSet h ms' \<and> distinct (map h ms')"
proof (induction rs arbitrary: ms)
  case Nil
  then show ?case by simp
next
  case (Cons r rs)
  have "HashSet_add (HashSet h ms) r = HashSet h (overwrite h r ms)"
    by (simp add: HashSet_add_def)
  moreover have "distinct (map h (overwrite h r ms))"
    using Cons.prems by (rule overwrite_distinct)
  ultimately show ?case
    using Cons.IH by simp
qed

lemma fromDefinitions_shape:
  assumes "fromDefinitions defs flag ig = Inr idx"
  shows "\<exists>ms. idx t = HashSet (identity t) ms \<and> distinct (map (identity t) ms)"
proof -
  have "idx = (\<lambda>t. fold (\<lambda>r s. HashSet_add s r)
                      (filter (\<lambda>r. \<not> ignored ig t r) (defs t))
                      (HashSet (identity t) []))"
    using assms by (simp add: fromDefinitions_def split: if_splits)
  then show ?thesis
    using fold_add_shape[of "identity t" "[]"] by simp
qed

lemma collectDiff_sel:
  "added (collectDiff key b a st) = (added st)(key := added st key @ added (diffMapsConsuming b a))"
  "deleted (collectDiff key b a st) = (deleted st)(key := deleted st key @ deleted (diffMapsConsuming b a))"
  "changed (collectDiff key b a st) = (changed st)(key := changed st key @ changed (diffMapsConsuming b a))"
  "unaffected (collectDiff key b a st) = (unaffected st)(key := unaffected st key @ unaffected (diffMapsConsuming b a))"
  by (simp_all add: collectDiff_def Let_def)

lemma diffClassified_Inr:
  assumes "diffClassified f B A il = Inr (st, impl)"
  shows "\<exists>before after.
           fromDefinitions B False (ignoreIndexOf f il) = Inr before \<and>
           fromDefinitions A False (ignoreIndexOf f il) = Inr after \<and>
           added st = (\<lambda>t. added (diffMapsConsuming (before t) (after t))) \<and>
           deleted st = (\<lambda>t. deleted (diffMapsConsuming (before t) (after t))) \<and>
           changed st = (\<lambda>t. changed (diffMapsConsuming (before t) (after t))) \<and>
           unaffected st = (\<lambda>t. unaffected (diffMapsConsuming (before t) (after t))) \<and>
           impl = filter (implicitlyAffectedBinding (changed st Exchanges) (changed st Queues))
                    (unaffected st Bindings)"
proof -
  obtain before where b: "fromDefinitions B False (ignoreIndexOf f il) = Inr before"
    using assms by (auto simp: diffClassified_def Let_def split: sum.splits)
  obtain after where a: "fromDefinitions A False (ignoreIndexOf f il) = Inr after"
    using assms b by (auto simp: diffClassified_def Let_def split: sum.splits)
  note r = assms[unfolded diffClassified_def Let_def b a sum.case, simplified, THEN conjunct1, symmetric]
  note i = assms[unfolded diffClassified_def Let_def b a sum.case, simplified, THEN conjunct2, symmetric]
  have 1: "added st = (\<lambda>t. added (diffMapsConsuming (before t) (after t)))"
    apply (rule ext)
    subgoal for t by (cases t) (simp_all add: r collectDiff_sel makeChangeMap_def)
    done
  have 2: "deleted st = (\<lambda>t. deleted (diffMapsConsuming (before t) (after t)))"
    apply (rule ext)
    subgoal for t by (cases t) (simp_all add: r collectDiff_sel makeChangeMap_def)
    done
  have 3: "changed st = (\<lambda>t. changed (diffMapsConsuming (before t) (after t)))"
    apply (rule ext)
    subgoal for t by (cases t) (simp_all add: r collectDiff_sel makeChangeMap_def)
    done
  have 4: "unaffected st = (\<lambda>t. unaffected (diffMapsConsuming (before t) (after t)))"
    apply (rule ext)
    subgoal for t by (cases t) (simp_all add: r collectDiff_sel makeChangeMap_def)
    done
  have 5: "impl = filter (implicitlyAffectedBinding (changed st Exchanges) (changed st Queues))
                    (unaffected st Bindings)"
    unfolding 3 4 by (simp add: i collectDiff_sel makeChangeMap_def)
  show ?thesis using b a 1 2 3 4 5 by blast
qed

lemma find_key_self:
  "distinct (map k bs) \<Longrightarrow> b \<in> set bs \<Longrightarrow> find (\<lambda>x. k x = k b) bs = Some b"
  by (induction bs) (auto simp: image_iff)

lemma find_key_SomeD:
  "find (\<lambda>x. k x = k a) bs = Some b \<Longrightarrow> b \<in> set bs \<and> k b = k a"
  by (induction bs) (auto split: if_splits)

lemma find_key_None: "(find (\<lambda>x. k x = k a) bs = None) = (k a \<notin> k ` set bs)"
  by (auto simp: find_None_iff image_iff)

lemma changedOf_snd:
  "map snd (changedOf k bs xs) =
     filter (\<lambda>a. \<exists>b. find (\<lambda>x. k x = k a) bs = Some b \<and> b \<noteq> a) xs"
  by (induction xs) (auto simp: changedOf_def List.map_filter_simps split: option.splits)

lemma changedOf_set:
  "set (changedOf k bs xs) =
     {(b, a). a \<in> set xs \<and> find (\<lambda>x. k x = k a) bs = Some b \<and> b \<noteq> a}"
  by (induction xs) (auto simp: changedOf_def List.map_filter_simps split: option.splits)

lemma changedOf_keys:
  "map (k \<circ> fst) (changedOf k bs xs) = map (k \<circ> snd) (changedOf k bs xs)"
  by (induction xs)
     (auto simp: changedOf_def List.map_filter_simps split: option.splits dest: find_key_SomeD)

lemma find_tri:
  "find P bs = None \<or> (\<exists>b. find P bs = Some b \<and> b \<noteq> a) \<or> find P bs = Some a"
  by (cases "find P bs") auto

lemma classes_after:
  "set xs = set (filter (\<lambda>a. find (\<lambda>x. k x = k a) bs = None) xs)
            \<union> snd ` set (changedOf k bs xs)
            \<union> set (filter (\<lambda>a. find (\<lambda>x. k x = k a) bs = Some a) xs)"
proof -
  have "snd ` set (changedOf k bs xs) = set (map snd (changedOf k bs xs))"
    by simp
  also have "\<dots> = {a \<in> set xs. \<exists>b. find (\<lambda>x. k x = k a) bs = Some b \<and> b \<noteq> a}"
    by (simp add: changedOf_snd)
  finally show ?thesis
    using find_tri[of "\<lambda>x. k x = k _" bs] by auto
qed

lemma classes_before:
  assumes "distinct (map k bs)"
  shows "set bs = set (filter (\<lambda>b. k b \<notin> k ` set xs) bs)
            \<union> fst ` set (changedOf k bs xs)
            \<union> set (filter (\<lambda>a. find (\<lambda>x. k x = k a) bs = Some a) xs)"
proof (intro set_eqI iffI)
  fix b assume b: "b \<in> set bs"
  show "b \<in> set (filter (\<lambda>b. k b \<notin> k ` set xs) bs)
            \<union> fst ` set (changedOf k bs xs)
            \<union> set (filter (\<lambda>a. find (\<lambda>x. k x = k a) bs = Some a) xs)"
  proof (cases "k b \<in> k ` set xs")
    case False
    then show ?thesis using b by simp
  next
    case True
    then obtain a where a: "a \<in> set xs" "k a = k b" by auto
    have f: "find (\<lambda>x. k x = k a) bs = Some b"
      using find_key_self[OF assms b] a by simp
    show ?thesis
    proof (cases "b = a")
      case True
      then show ?thesis using a f by simp
    next
      case False
      then have "(b, a) \<in> set (changedOf k bs xs)"
        using a f by (simp add: changedOf_set)
      then show ?thesis by force
    qed
  qed
next
  fix b assume "b \<in> set (filter (\<lambda>b. k b \<notin> k ` set xs) bs)
            \<union> fst ` set (changedOf k bs xs)
            \<union> set (filter (\<lambda>a. find (\<lambda>x. k x = k a) bs = Some a) xs)"
  then show "b \<in> set bs"
    by (auto simp: changedOf_set dest: find_key_SomeD)
qed

lemma filter_keys_disjoint:
  assumes "distinct (map k xs)" "\<And>x. x \<in> set xs \<Longrightarrow> \<not> (P x \<and> Q x)"
  shows "k ` set (filter P xs) \<inter> k ` set (filter Q xs) = {}"
proof (rule equals0I)
  fix y assume "y \<in> k ` set (filter P xs) \<inter> k ` set (filter Q xs)"
  then obtain a a' where a: "a \<in> set xs" "P a" "y = k a" and a': "a' \<in> set xs" "Q a'" "y = k a'"
    by auto
  have "inj_on k (set xs)"
    using assms(1) by (simp add: distinct_map)
  then have "a = a'"
    using a a' by (simp add: inj_on_def)
  then show False
    using assms(2)[of a] a a' by simp
qed

lemma deleted_keys_disjoint:
  assumes "set ys \<subseteq> set xs"
  shows "k ` set (filter (\<lambda>b. k b \<notin> k ` set xs) bs) \<inter> k ` set ys = {}"
proof (rule equals0I)
  fix y assume "y \<in> k ` set (filter (\<lambda>b. k b \<notin> k ` set xs) bs) \<inter> k ` set ys"
  then obtain b a where "k b \<notin> k ` set xs" "y = k b" "a \<in> set ys" "y = k a"
    by auto
  then show False
    using assms by (metis image_eqI subsetD)
qed

lemma classes_distinct:
  assumes "distinct (map k xs)" "distinct (map k bs)"
  shows "distinct (map k (filter (\<lambda>a. find (\<lambda>x. k x = k a) bs = None) xs
                          @ filter (\<lambda>b. k b \<notin> k ` set xs) bs
                          @ map snd (changedOf k bs xs)
                          @ filter (\<lambda>a. find (\<lambda>x. k x = k a) bs = Some a) xs))"
proof -
  let ?A = "filter (\<lambda>a. find (\<lambda>x. k x = k a) bs = None) xs"
  let ?D = "filter (\<lambda>b. k b \<notin> k ` set xs) bs"
  let ?C = "filter (\<lambda>a. \<exists>b. find (\<lambda>x. k x = k a) bs = Some b \<and> b \<noteq> a) xs"
  let ?U = "filter (\<lambda>a. find (\<lambda>x. k x = k a) bs = Some a) xs"
  have dA: "distinct (map k ?A)" and dC: "distinct (map k ?C)" and dU: "distinct (map k ?U)"
    using assms(1) by (simp_all add: distinct_map_filter)
  have dD: "distinct (map k ?D)"
    using assms(2) by (simp add: distinct_map_filter)
  have AC: "k ` set ?A \<inter> k ` set ?C = {}"
    by (rule filter_keys_disjoint[OF assms(1)]) auto
  have AU: "k ` set ?A \<inter> k ` set ?U = {}"
    by (rule filter_keys_disjoint[OF assms(1)]) auto
  have CU: "k ` set ?C \<inter> k ` set ?U = {}"
    by (rule filter_keys_disjoint[OF assms(1)]) auto
  have DA: "k ` set ?D \<inter> k ` set ?A = {}"
    by (rule deleted_keys_disjoint) simp
  have DC: "k ` set ?D \<inter> k ` set ?C = {}"
    by (rule deleted_keys_disjoint) simp
  have DU: "k ` set ?D \<inter> k ` set ?U = {}"
    by (rule deleted_keys_disjoint) simp
  have AD: "k ` set ?A \<inter> k ` set ?D = {}"
    using DA by (simp only: Int_commute)
  show ?thesis
    unfolding changedOf_snd
    using dA dC dU dD AC AU CU AD DC DU
    by (simp only: map_append distinct_append set_append set_map image_Un Int_Un_distrib Int_Un_distrib2
                   Un_empty simp_thms)
qed

lemma classes_keys:
  "k ` set (filter (\<lambda>a. find (\<lambda>x. k x = k a) bs = None) xs
                          @ filter (\<lambda>b. k b \<notin> k ` set xs) bs
                          @ map snd (changedOf k bs xs)
                          @ filter (\<lambda>a. find (\<lambda>x. k x = k a) bs = Some a) xs)
   = k ` set bs \<union> k ` set xs"
proof -
  let ?A = "filter (\<lambda>a. find (\<lambda>x. k x = k a) bs = None) xs"
  let ?D = "filter (\<lambda>b. k b \<notin> k ` set xs) bs"
  let ?U = "filter (\<lambda>a. find (\<lambda>x. k x = k a) bs = Some a) xs"
  have "set xs = set ?A \<union> set (map snd (changedOf k bs xs)) \<union> set ?U"
    using classes_after[of xs k bs] by simp
  then have x: "k ` set xs = k ` set ?A \<union> k ` set (map snd (changedOf k bs xs)) \<union> k ` set ?U"
    by (metis image_Un)
  have d: "k ` set ?D \<union> k ` set xs = k ` set bs \<union> k ` set xs"
  proof (intro set_eqI iffI)
    fix y assume "y \<in> k ` set ?D \<union> k ` set xs"
    then show "y \<in> k ` set bs \<union> k ` set xs" by auto
  next
    fix y assume y: "y \<in> k ` set bs \<union> k ` set xs"
    show "y \<in> k ` set ?D \<union> k ` set xs"
    proof (cases "y \<in> k ` set xs")
      case True then show ?thesis by simp
    next
      case False
      then obtain b where "b \<in> set bs" "y = k b" using y by auto
      then have "b \<in> set ?D" using False by simp
      then show ?thesis using \<open>y = k b\<close> by blast
    qed
  qed
  have "k ` set (?A @ ?D @ map snd (changedOf k bs xs) @ ?U)
        = k ` set ?D \<union> (k ` set ?A \<union> k ` set (map snd (changedOf k bs xs)) \<union> k ` set ?U)"
    unfolding set_append image_Un by (simp only: Un_assoc Un_left_commute)
  also have "\<dots> = k ` set ?D \<union> k ` set xs"
    using x by simp
  finally show ?thesis
    using d by simp
qed

lemma diffClassified_closed:
  assumes d: "diffClassified f B A il = Inr (st, impl)"
    and b: "fromDefinitions B False (ignoreIndexOf f il) = Inr before"
    and a: "fromDefinitions A False (ignoreIndexOf f il) = Inr after"
  shows "distinct (map (identity t) (members (before t)))"
    and "distinct (map (identity t) (members (after t)))"
    and "added st t = filter (\<lambda>a. find (\<lambda>x. identity t x = identity t a) (members (before t)) = None)
                        (members (after t))"
    and "deleted st t = filter (\<lambda>b. identity t b \<notin> identity t ` set (members (after t)))
                          (members (before t))"
    and "changed st t = changedOf (identity t) (members (before t)) (members (after t))"
    and "unaffected st t = filter (\<lambda>a. find (\<lambda>x. identity t x = identity t a) (members (before t)) = Some a)
                             (members (after t))"
proof -
  obtain bs where bs: "before t = HashSet (identity t) bs" "distinct (map (identity t) bs)"
    using fromDefinitions_shape[OF b] by blast
  obtain xs where xs: "after t = HashSet (identity t) xs" "distinct (map (identity t) xs)"
    using fromDefinitions_shape[OF a] by blast
  obtain before' after' where
      b': "fromDefinitions B False (ignoreIndexOf f il) = Inr before'"
  and a': "fromDefinitions A False (ignoreIndexOf f il) = Inr after'"
  and st: "added st = (\<lambda>t. added (diffMapsConsuming (before' t) (after' t)))"
          "deleted st = (\<lambda>t. deleted (diffMapsConsuming (before' t) (after' t)))"
          "changed st = (\<lambda>t. changed (diffMapsConsuming (before' t) (after' t)))"
          "unaffected st = (\<lambda>t. unaffected (diffMapsConsuming (before' t) (after' t)))"
    using diffClassified_Inr[OF d] by blast
  have eq: "before' = before" "after' = after"
    using b b' a a' by simp_all
  note c = diffMapsConsuming_closed[OF xs(2) bs(2)]
  show "distinct (map (identity t) (members (before t)))"
    using bs by simp
  show "distinct (map (identity t) (members (after t)))"
    using xs by simp
  show "added st t = filter (\<lambda>a. find (\<lambda>x. identity t x = identity t a) (members (before t)) = None)
                        (members (after t))"
    by (simp add: st eq bs xs c)
  show "deleted st t = filter (\<lambda>b. identity t b \<notin> identity t ` set (members (after t)))
                          (members (before t))"
    by (simp add: st eq bs xs c)
  show "changed st t = changedOf (identity t) (members (before t)) (members (after t))"
    by (simp add: st eq bs xs c)
  show "unaffected st t = filter (\<lambda>a. find (\<lambda>x. identity t x = identity t a) (members (before t)) = Some a)
                             (members (after t))"
    by (simp add: st eq bs xs c)
qed

lemma diffClassified_total:
  assumes "fromDefinitions B False (ignoreIndexOf f il) = Inr before"
    and "fromDefinitions A False (ignoreIndexOf f il) = Inr after"
  shows "\<exists>st impl. diffClassified f B A il = Inr (st, impl)"
  using assms by (simp add: diffClassified_def Let_def)

lemma diffClassified_indexes:
  assumes "diffClassified f B A il = Inr (st, impl)"
  shows "\<exists>before after. fromDefinitions B False (ignoreIndexOf f il) = Inr before \<and>
                         fromDefinitions A False (ignoreIndexOf f il) = Inr after"
  using diffClassified_Inr[OF assms] by blast

lemma ex_before_ok: "\<not> isl (fromDefinitions exBefore False None)"
  by code_simp

lemma ex_after_ok: "\<not> isl (fromDefinitions exAfter False None)"
  by code_simp

lemma ex_values:
  "(case diffClassified noIgnoreList exBefore exAfter None of
      Inl e \<Rightarrow> False
    | Inr (st, impl) \<Rightarrow>
        added st Queues = [q2] \<and> deleted st Queues = [q3] \<and> changed st Queues = [(q1, q1')]
        \<and> unaffected st Queues = [] \<and> changed st Exchanges = [(ex1, ex1')]
        \<and> unaffected st Bindings = [b1] \<and> impl = [b1])"
  by code_simp

text \<open>
  C1. For each resource type, every member of the after set is in exactly one of added,
  changed and unaffected, every member of the before set is in exactly one of deleted,
  changed and unaffected, and the four classes partition the identities of the two sets:
  the identities of the classified records are pairwise distinct and are those of the
  two sets together. The two records of a changed pair share their identity.
\<close>

theorem diff_completeness:
  assumes "diffClassified fromIgnoreList beforeDef afterDef ignoreList = Inr (st, impl)"
    and "fromDefinitions beforeDef False (ignoreIndexOf fromIgnoreList ignoreList) = Inr before"
    and "fromDefinitions afterDef False (ignoreIndexOf fromIgnoreList ignoreList) = Inr after"
  shows "set (HashSet_values (after t))
           = set (added st t) \<union> snd ` set (changed st t) \<union> set (unaffected st t)
       \<and> set (HashSet_values (before t))
           = set (deleted st t) \<union> fst ` set (changed st t) \<union> set (unaffected st t)
       \<and> distinct (map (identity t)
                      (added st t @ deleted st t @ map snd (changed st t) @ unaffected st t))
       \<and> map (identity t \<circ> fst) (changed st t) = map (identity t \<circ> snd) (changed st t)
       \<and> distinct (map (identity t) (deleted st t @ map fst (changed st t) @ unaffected st t))
       \<and> identity t ` set (added st t @ deleted st t @ map snd (changed st t) @ unaffected st t)
           = identity t ` set (HashSet_values (before t)) \<union> identity t ` set (HashSet_values (after t))"
proof -
  note c = diffClassified_closed[OF assms, of t]
  have 1: "set (HashSet_values (after t))
           = set (added st t) \<union> snd ` set (changed st t) \<union> set (unaffected st t)"
    unfolding c(3,5,6) HashSet_values_def by (rule classes_after)
  have 2: "set (HashSet_values (before t))
           = set (deleted st t) \<union> fst ` set (changed st t) \<union> set (unaffected st t)"
    unfolding c(4,5,6) HashSet_values_def by (rule classes_before[OF c(1)])
  have 3: "distinct (map (identity t)
                      (added st t @ deleted st t @ map snd (changed st t) @ unaffected st t))"
    unfolding c(3,4,5,6) by (rule classes_distinct[OF c(2) c(1)])
  have 4: "map (identity t \<circ> fst) (changed st t) = map (identity t \<circ> snd) (changed st t)"
    unfolding c(5) by (rule changedOf_keys)
  have 5: "identity t ` set (added st t @ deleted st t @ map snd (changed st t) @ unaffected st t)
           = identity t ` set (HashSet_values (before t)) \<union> identity t ` set (HashSet_values (after t))"
    unfolding c(3,4,5,6) HashSet_values_def by (rule classes_keys)
  have "distinct (map (identity t) (deleted st t @ map snd (changed st t) @ unaffected st t))"
    using 3 by simp
  moreover have "map (identity t) (map fst (changed st t)) = map (identity t) (map snd (changed st t))"
    using 4 by simp
  ultimately have 6: "distinct (map (identity t)
                                  (deleted st t @ map fst (changed st t) @ unaffected st t))"
    by (simp only: map_append)
  show ?thesis using 1 2 3 4 5 6 by (intro conjI)
qed

theorem diff_completeness_witness:
  "\<exists>st impl before after.
     diffClassified noIgnoreList exBefore exAfter None = Inr (st, impl)
     \<and> fromDefinitions exBefore False (ignoreIndexOf noIgnoreList None) = Inr before
     \<and> fromDefinitions exAfter False (ignoreIndexOf noIgnoreList None) = Inr after
     \<and> added st Queues = [q2] \<and> deleted st Queues = [q3] \<and> changed st Queues = [(q1, q1')]
     \<and> unaffected st Queues = []
     \<and> set (HashSet_values (after Queues))
           = set (added st Queues) \<union> snd ` set (changed st Queues) \<union> set (unaffected st Queues)
     \<and> set (HashSet_values (before Queues))
           = set (deleted st Queues) \<union> fst ` set (changed st Queues) \<union> set (unaffected st Queues)
     \<and> distinct (map (identity Queues)
                    (added st Queues @ deleted st Queues @ map snd (changed st Queues)
                     @ unaffected st Queues))"
proof -
  have ig: "ignoreIndexOf noIgnoreList None = None"
    by (simp add: ignoreIndexOf_def)
  obtain before where b: "fromDefinitions exBefore False (ignoreIndexOf noIgnoreList None) = Inr before"
    using ex_before_ok unfolding ig by (cases "fromDefinitions exBefore False None") auto
  obtain after where a: "fromDefinitions exAfter False (ignoreIndexOf noIgnoreList None) = Inr after"
    using ex_after_ok unfolding ig by (cases "fromDefinitions exAfter False None") auto
  obtain st impl where d: "diffClassified noIgnoreList exBefore exAfter None = Inr (st, impl)"
    using diffClassified_total[OF b a] by blast
  have v: "added st Queues = [q2]" "deleted st Queues = [q3]" "changed st Queues = [(q1, q1')]"
          "unaffected st Queues = []"
    using ex_values unfolding d by simp_all
  note c = diff_completeness[OF d b a, of Queues]
  show ?thesis
    apply (rule exI[of _ st], rule exI[of _ impl], rule exI[of _ before], rule exI[of _ after])
    using d b a v c apply (intro conjI)
             apply (simp_all only: simp_thms)
    done
qed

lemma touchesChangedExchange_iff:
  "touchesChangedExchange cs b =
     (\<exists>c \<in> set cs. strictEq (getProp (fst c) ''vhost'') (getProp b ''vhost'') \<and>
        (strictEq (getProp (fst c) ''name'') (getProp b ''source'') \<or>
         (strictEq (getProp b ''destination_type'') (Some (JStr ''exchange'')) \<and>
          strictEq (getProp (fst c) ''name'') (getProp b ''destination''))))"
  by (induction cs b rule: touchesChangedExchange.induct) auto

lemma touchesChangedQueue_iff:
  "touchesChangedQueue cs b =
     (strictEq (getProp b ''destination_type'') (Some (JStr ''queue'')) \<and>
      (\<exists>c \<in> set cs. strictEq (getProp (fst c) ''vhost'') (getProp b ''vhost'') \<and>
          strictEq (getProp (fst c) ''name'') (getProp b ''destination'')))"
  by (induction cs b rule: touchesChangedQueue.induct) auto

lemma implicitlyAffectedBinding_iff:
  "implicitlyAffectedBinding cex cq b =
     ((\<exists>c \<in> set cex. strictEq (getProp (fst c) ''vhost'') (getProp b ''vhost'') \<and>
        (strictEq (getProp (fst c) ''name'') (getProp b ''source'') \<or>
         (strictEq (getProp b ''destination_type'') (Some (JStr ''exchange'')) \<and>
          strictEq (getProp (fst c) ''name'') (getProp b ''destination'')))) \<or>
      (strictEq (getProp b ''destination_type'') (Some (JStr ''queue'')) \<and>
       (\<exists>c \<in> set cq. strictEq (getProp (fst c) ''vhost'') (getProp b ''vhost'') \<and>
          strictEq (getProp (fst c) ''name'') (getProp b ''destination''))))"
  unfolding implicitlyAffectedBinding_def touchesChangedExchange_iff touchesChangedQueue_iff
  by auto

lemma diffClassified_implicit:
  assumes "diffClassified f B A il = Inr (st, impl)"
  shows "impl = filter (implicitlyAffectedBinding (changed st Exchanges) (changed st Queues))
                  (unaffected st Bindings)"
  using diffClassified_Inr[OF assms] by blast

lemma diff_of_classified:
  "diffClassified f B A il = Inr (st, impl) \<Longrightarrow>
   diff f B A il = Inr \<lparr>added = added st, deleted = deleted st, changed = changed st,
                        implicitlyAffected = \<lparr>bindings = impl\<rparr>\<rparr>"
  by (simp add: diff_def)

lemma diff_InrD:
  assumes "diff f B A il = Inr r"
  shows "\<exists>st impl. diffClassified f B A il = Inr (st, impl) \<and> added r = added st \<and>
           deleted r = deleted st \<and> changed r = changed st \<and> bindings (implicitlyAffected r) = impl"
  using assms by (auto simp: diff_def split: sum.splits)

text \<open>
  C2. The diff of a snapshot against itself has nothing added, nothing deleted and nothing
  changed for every resource type, and classifies every member of its Index unaffected.
\<close>

theorem diff_self:
  assumes "fromDefinitions X False (ignoreIndexOf fromIgnoreList ignoreList) = Inr idx"
  shows "\<exists>st. diffClassified fromIgnoreList X X ignoreList = Inr (st, [])
            \<and> (\<forall>t. added st t = [] \<and> deleted st t = [] \<and> changed st t = []
                    \<and> unaffected st t = HashSet_values (idx t))
            \<and> diff fromIgnoreList X X ignoreList
                = Inr \<lparr>added = (\<lambda>t. []), deleted = (\<lambda>t. []), changed = (\<lambda>t. []),
                       implicitlyAffected = \<lparr>bindings = []\<rparr>\<rparr>"
proof -
  obtain st impl where d: "diffClassified fromIgnoreList X X ignoreList = Inr (st, impl)"
    using diffClassified_total[OF assms assms] by blast
  have per: "added st t = [] \<and> deleted st t = [] \<and> changed st t = []
               \<and> unaffected st t = HashSet_values (idx t)" for t
  proof -
    note c = diffClassified_closed[OF d assms assms, of t]
    let ?k = "identity t" and ?xs = "members (idx t)"
    have self: "\<And>a. a \<in> set ?xs \<Longrightarrow> find (\<lambda>x. ?k x = ?k a) ?xs = Some a"
      using c(1) by (rule find_key_self)
    have "added st t = []"
      unfolding c(3) by (simp add: self filter_empty_conv)
    moreover have "deleted st t = []"
      unfolding c(4) by (simp add: filter_empty_conv)
    moreover have "changedOf ?k ?xs ?xs = []"
      unfolding changedOf_def List.map_filter_def
      by (simp add: filter_empty_conv self)
    then have "changed st t = []"
      unfolding c(5) .
    moreover have "unaffected st t = HashSet_values (idx t)"
      unfolding c(6) HashSet_values_def by (simp add: self filter_id_conv)
    ultimately show ?thesis by simp
  qed
  have ch: "changed st = (\<lambda>t. [])" "added st = (\<lambda>t. [])" "deleted st = (\<lambda>t. [])"
    using per by auto
  have "impl = []"
    unfolding diffClassified_implicit[OF d] ch
    by (simp add: implicitlyAffectedBinding_def filter_empty_conv)
  then show ?thesis
    using d per diff_of_classified[OF d] ch by simp
qed

theorem diff_self_witness:
  "\<exists>idx. fromDefinitions exBefore False (ignoreIndexOf noIgnoreList None) = Inr idx
     \<and> HashSet_values (idx Queues) = [q1, q3]
     \<and> diff noIgnoreList exBefore exBefore None
         = Inr \<lparr>added = (\<lambda>t. []), deleted = (\<lambda>t. []), changed = (\<lambda>t. []),
                implicitlyAffected = \<lparr>bindings = []\<rparr>\<rparr>"
proof -
  have ig: "ignoreIndexOf noIgnoreList None = None"
    by (simp add: ignoreIndexOf_def)
  obtain idx where b: "fromDefinitions exBefore False (ignoreIndexOf noIgnoreList None) = Inr idx"
    using ex_before_ok unfolding ig by (cases "fromDefinitions exBefore False None") auto
  have "(case fromDefinitions exBefore False None of Inl e \<Rightarrow> [] | Inr i \<Rightarrow> HashSet_values (i Queues))
         = [q1, q3]"
    by code_simp
  then have v: "HashSet_values (idx Queues) = [q1, q3]"
    using b unfolding ig by simp
  from diff_self[OF b] have
    "diff noIgnoreList exBefore exBefore None
         = Inr \<lparr>added = (\<lambda>t. []), deleted = (\<lambda>t. []), changed = (\<lambda>t. []),
                implicitlyAffected = \<lparr>bindings = []\<rparr>\<rparr>"
    by (elim exE conjE)
  then show ?thesis
    using b v by (intro exI[of _ idx] conjI)
qed

lemma ex_sym_values:
  "(case diff noIgnoreList exBefore exAfter None of
      Inl e \<Rightarrow> False
    | Inr r \<Rightarrow> added r Queues = [q2] \<and> deleted r Queues = [q3])"
  by code_simp

text \<open>
  C3. What the diff from \<open>X\<close> to \<open>Y\<close> reports added is, record for record, what the
  diff from \<open>Y\<close> to \<open>X\<close> reports deleted, and the other way round.
\<close>

theorem diff_symmetry:
  assumes "diff fromIgnoreList X Y ignoreList = Inr r"
  shows "\<exists>r'. diff fromIgnoreList Y X ignoreList = Inr r'
           \<and> (\<forall>t. added r t = deleted r' t \<and> deleted r t = added r' t)"
proof -
  obtain st impl where d: "diffClassified fromIgnoreList X Y ignoreList = Inr (st, impl)"
    and r: "added r = added st" "deleted r = deleted st"
    using diff_InrD[OF assms] by blast
  obtain ix iy where ix: "fromDefinitions X False (ignoreIndexOf fromIgnoreList ignoreList) = Inr ix"
    and iy: "fromDefinitions Y False (ignoreIndexOf fromIgnoreList ignoreList) = Inr iy"
    using diffClassified_indexes[OF d] by blast
  obtain st' impl' where d': "diffClassified fromIgnoreList Y X ignoreList = Inr (st', impl')"
    using diffClassified_total[OF iy ix] by blast
  have "added st t = deleted st' t \<and> deleted st t = added st' t" for t
  proof -
    note c = diffClassified_closed[OF d ix iy, of t]
    note c' = diffClassified_closed[OF d' iy ix, of t]
    show ?thesis
      unfolding c(3) c(4) c'(3) c'(4) by (simp add: find_key_None)
  qed
  then show ?thesis
    using diff_of_classified[OF d'] r by simp
qed

theorem diff_symmetry_witness:
  "\<exists>r r'. diff noIgnoreList exBefore exAfter None = Inr r
     \<and> diff noIgnoreList exAfter exBefore None = Inr r'
     \<and> added r Queues = [q2] \<and> deleted r' Queues = [q2]
     \<and> deleted r Queues = [q3] \<and> added r' Queues = [q3]"
proof -
  obtain r where r: "diff noIgnoreList exBefore exAfter None = Inr r"
    using ex_sym_values by (cases "diff noIgnoreList exBefore exAfter None") auto
  have v: "added r Queues = [q2]" "deleted r Queues = [q3]"
    using ex_sym_values unfolding r by simp_all
  from diff_symmetry[OF r] obtain r' where
    "diff noIgnoreList exAfter exBefore None = Inr r'"
    "\<forall>t. added r t = deleted r' t \<and> deleted r t = added r' t"
    by blast
  then show ?thesis
    using r v by metis
qed

text \<open>
  C4. An unaffected binding is implicitly affected exactly when its vhost and its source,
  or its destination when the destination type is \<open>exchange\<close>, are those of the before
  record of a changed exchange, or its destination type is \<open>queue\<close> and its vhost and
  destination are those of the before record of a changed queue. In particular an
  unaffected binding whose source is a changed exchange of its vhost is implicitly
  affected. The implicitly affected bindings are what \<open>diff\<close> returns under that name.
\<close>

theorem implicit_bindings:
  assumes "diffClassified fromIgnoreList beforeDef afterDef ignoreList = Inr (st, impl)"
    and "b \<in> set (unaffected st Bindings)"
  shows "(\<exists>r. diff fromIgnoreList beforeDef afterDef ignoreList = Inr r
              \<and> bindings (implicitlyAffected r) = impl)
       \<and> (b \<in> set impl) =
           ((\<exists>c \<in> set (changed st Exchanges).
                strictEq (getProp (fst c) ''vhost'') (getProp b ''vhost'') \<and>
                (strictEq (getProp (fst c) ''name'') (getProp b ''source'') \<or>
                 (strictEq (getProp b ''destination_type'') (Some (JStr ''exchange'')) \<and>
                  strictEq (getProp (fst c) ''name'') (getProp b ''destination'')))) \<or>
            (strictEq (getProp b ''destination_type'') (Some (JStr ''queue'')) \<and>
             (\<exists>c \<in> set (changed st Queues).
                strictEq (getProp (fst c) ''vhost'') (getProp b ''vhost'') \<and>
                strictEq (getProp (fst c) ''name'') (getProp b ''destination''))))
       \<and> (\<forall>c V E. c \<in> set (changed st Exchanges) \<and>
                  getProp (fst c) ''vhost'' = Some (JStr V) \<and> getProp (fst c) ''name'' = Some (JStr E) \<and>
                  getProp b ''vhost'' = Some (JStr V) \<and> getProp b ''source'' = Some (JStr E)
                  \<longrightarrow> b \<in> set impl)"
proof -
  have i: "impl = filter (implicitlyAffectedBinding (changed st Exchanges) (changed st Queues))
                    (unaffected st Bindings)"
    using assms(1) by (rule diffClassified_implicit)
  have m: "(b \<in> set impl) = implicitlyAffectedBinding (changed st Exchanges) (changed st Queues) b"
    using assms(2) by (simp add: i)
  have 1: "\<exists>r. diff fromIgnoreList beforeDef afterDef ignoreList = Inr r
              \<and> bindings (implicitlyAffected r) = impl"
    using diff_of_classified[OF assms(1)] by simp
  have 3: "\<forall>c V E. c \<in> set (changed st Exchanges) \<and>
                  getProp (fst c) ''vhost'' = Some (JStr V) \<and> getProp (fst c) ''name'' = Some (JStr E) \<and>
                  getProp b ''vhost'' = Some (JStr V) \<and> getProp b ''source'' = Some (JStr E)
                  \<longrightarrow> b \<in> set impl"
    unfolding m implicitlyAffectedBinding_iff by force
  show ?thesis
    using 1 3 unfolding m implicitlyAffectedBinding_iff by blast
qed

theorem implicit_bindings_witness:
  "\<exists>st impl. diffClassified noIgnoreList exBefore exAfter None = Inr (st, impl)
     \<and> b1 \<in> set (unaffected st Bindings)
     \<and> (ex1, ex1') \<in> set (changed st Exchanges)
     \<and> getProp ex1 ''vhost'' = Some (JStr ''/'') \<and> getProp ex1 ''name'' = Some (JStr ''ex1'')
     \<and> getProp b1 ''vhost'' = Some (JStr ''/'') \<and> getProp b1 ''source'' = Some (JStr ''ex1'')
     \<and> b1 \<in> set impl
     \<and> (\<exists>r. diff noIgnoreList exBefore exAfter None = Inr r \<and> bindings (implicitlyAffected r) = impl)"
proof -
  obtain st impl where d: "diffClassified noIgnoreList exBefore exAfter None = Inr (st, impl)"
    using ex_values by (cases "diffClassified noIgnoreList exBefore exAfter None") auto
  have v: "unaffected st Bindings = [b1]" "changed st Exchanges = [(ex1, ex1')]"
    using ex_values unfolding d by simp_all
  have u: "b1 \<in> set (unaffected st Bindings)" and c: "(ex1, ex1') \<in> set (changed st Exchanges)"
    using v by simp_all
  have p: "getProp ex1 ''vhost'' = Some (JStr ''/'')" "getProp ex1 ''name'' = Some (JStr ''ex1'')"
          "getProp b1 ''vhost'' = Some (JStr ''/'')" "getProp b1 ''source'' = Some (JStr ''ex1'')"
    by code_simp+
  from implicit_bindings[OF d u] have
    "\<exists>r. diff noIgnoreList exBefore exAfter None = Inr r \<and> bindings (implicitlyAffected r) = impl"
    and "\<forall>c V E. c \<in> set (changed st Exchanges) \<and>
                  getProp (fst c) ''vhost'' = Some (JStr V) \<and> getProp (fst c) ''name'' = Some (JStr E) \<and>
                  getProp b1 ''vhost'' = Some (JStr V) \<and> getProp b1 ''source'' = Some (JStr E)
                  \<longrightarrow> b1 \<in> set impl"
    by blast+
  then show ?thesis
    using d u c p by (metis fst_conv)
qed

text \<open>
  C10. The implicitly affected bindings are a subsequence of the unaffected bindings,
  hold no identity twice, and share no identity with a binding that is added, deleted
  or changed.
\<close>

theorem implicit_subsequence:
  assumes "diffClassified fromIgnoreList beforeDef afterDef ignoreList = Inr (st, impl)"
  shows "subseq impl (unaffected st Bindings)
       \<and> distinct (map (identity Bindings) impl)
       \<and> identity Bindings ` set impl
           \<inter> identity Bindings ` (set (added st Bindings) \<union> set (deleted st Bindings)
                                  \<union> fst ` set (changed st Bindings) \<union> snd ` set (changed st Bindings))
           = {}
       \<and> set impl
           \<inter> (set (added st Bindings) \<union> set (deleted st Bindings)
              \<union> fst ` set (changed st Bindings) \<union> snd ` set (changed st Bindings))
           = {}"
proof -
  let ?k = "identity Bindings"
  obtain before after where
      b: "fromDefinitions beforeDef False (ignoreIndexOf fromIgnoreList ignoreList) = Inr before"
  and a: "fromDefinitions afterDef False (ignoreIndexOf fromIgnoreList ignoreList) = Inr after"
    using diffClassified_indexes[OF assms] by blast
  note c = diffClassified_closed[OF assms b a, of Bindings]
  have i: "impl = filter (implicitlyAffectedBinding (changed st Exchanges) (changed st Queues))
                    (unaffected st Bindings)"
    using assms by (rule diffClassified_implicit)
  have 1: "subseq impl (unaffected st Bindings)"
    unfolding i by (rule subseq_filter_left)
  have d: "distinct (map ?k (added st Bindings @ deleted st Bindings
                              @ map snd (changed st Bindings) @ unaffected st Bindings))"
    unfolding c(3,4,5,6) by (rule classes_distinct[OF c(2) c(1)])
  have ck: "map (?k \<circ> fst) (changed st Bindings) = map (?k \<circ> snd) (changed st Bindings)"
    unfolding c(5) by (rule changedOf_keys)
  then have "set (map (?k \<circ> fst) (changed st Bindings)) = set (map (?k \<circ> snd) (changed st Bindings))"
    by simp
  then have ck': "?k ` fst ` set (changed st Bindings) = ?k ` snd ` set (changed st Bindings)"
    by (simp add: image_comp)
  have du: "distinct (map ?k (unaffected st Bindings))"
    using d by simp
  have 2: "distinct (map ?k impl)"
    unfolding i using du by (rule distinct_map_filter)
  have sub: "?k ` set impl \<subseteq> ?k ` set (unaffected st Bindings)"
    unfolding i by auto
  have dis: "?k ` set (unaffected st Bindings)
           \<inter> (?k ` set (added st Bindings) \<union> ?k ` set (deleted st Bindings)
               \<union> ?k ` snd ` set (changed st Bindings)) = {}"
    using d by (auto simp: image_iff)
  have 3: "?k ` set impl
           \<inter> ?k ` (set (added st Bindings) \<union> set (deleted st Bindings)
                                  \<union> fst ` set (changed st Bindings) \<union> snd ` set (changed st Bindings))
           = {}"
    unfolding image_Un ck' using sub dis by blast
  have 4: "set impl
           \<inter> (set (added st Bindings) \<union> set (deleted st Bindings)
              \<union> fst ` set (changed st Bindings) \<union> snd ` set (changed st Bindings))
           = {}"
  proof (rule equals0I)
    fix x
    assume x: "x \<in> set impl
           \<inter> (set (added st Bindings) \<union> set (deleted st Bindings)
              \<union> fst ` set (changed st Bindings) \<union> snd ` set (changed st Bindings))"
    have a: "x \<in> set impl"
      using x by (rule IntD1)
    have b: "x \<in> set (added st Bindings) \<union> set (deleted st Bindings)
              \<union> fst ` set (changed st Bindings) \<union> snd ` set (changed st Bindings)"
      using x by (rule IntD2)
    have "?k x \<in> ?k ` set impl
           \<inter> ?k ` (set (added st Bindings) \<union> set (deleted st Bindings)
                                  \<union> fst ` set (changed st Bindings) \<union> snd ` set (changed st Bindings))"
      using a b by (intro IntI imageI)
    then show False
      unfolding 3 by (rule emptyE)
  qed
  show ?thesis using 1 2 3 4 by (intro conjI)
qed

theorem implicit_subsequence_witness:
  "\<exists>st impl. diffClassified noIgnoreList exBefore exAfter None = Inr (st, impl)
     \<and> impl = [b1] \<and> unaffected st Bindings = [b1]
     \<and> subseq impl (unaffected st Bindings)
     \<and> distinct (map (identity Bindings) impl)"
proof -
  obtain st impl where d: "diffClassified noIgnoreList exBefore exAfter None = Inr (st, impl)"
    using ex_values by (cases "diffClassified noIgnoreList exBefore exAfter None") auto
  have v: "unaffected st Bindings = [b1]" "impl = [b1]"
    using ex_values unfolding d by simp_all
  note t = implicit_subsequence[OF d]
  show ?thesis
    using d v t[THEN conjunct1] t[THEN conjunct2, THEN conjunct1]
    by (intro exI[of _ st] exI[of _ impl] conjI)
qed

section \<open>Properties of the deployment\<close>

lemma requestsOf_append: "requestsOf (xs @ ys) = requestsOf xs @ requestsOf ys"
  by (simp add: requestsOf_def)

lemma callsFor_Nil: "callsFor enc operation type ov [] = []"
  by (simp add: callsFor_def split: option.splits)

lemma callsFor_Cons:
  "callsFor enc operation type ov (r # rs)
     = callsFor enc operation type ov [r] @ callsFor enc operation type ov rs"
  by (simp add: callsFor_def split: option.splits)

lemma requestsOf_callsFor: "requestsOf (callsFor enc operation type ov es) = callsFor enc operation type ov es"
  by (auto simp: callsFor_def requestsOf_def filter_id_conv split: option.splits)

lemma dispatch_events:
  assumes "dispatch request enc operation type ov r s = (out, evs, s')"
  shows "evs = callsFor enc operation type ov [r]"
  using assms
  by (auto simp: dispatch_def callsFor_def Let_def split: option.splits prod.splits)

lemma allSettled_events:
  assumes "allSettled request enc operation type ov es s = (result, evs, s')"
  shows "evs = callsFor enc operation type ov es \<and> length result = length es"
  using assms
proof (induction es arbitrary: s result evs s')
  case Nil
  then show ?case by (simp add: callsFor_Nil)
next
  case (Cons r rs)
  obtain out e1 s1 where d: "dispatch request enc operation type ov r s = (out, e1, s1)"
    by (cases "dispatch request enc operation type ov r s") auto
  obtain outs e2 s2 where a: "allSettled request enc operation type ov rs s1 = (outs, e2, s2)"
    by (cases "allSettled request enc operation type ov rs s1") auto
  have "result = out # outs" "evs = e1 @ e2"
    using Cons.prems d a by simp_all
  then show ?case
    using Cons.IH[OF a] dispatch_events[OF d] callsFor_Cons[of enc operation type ov r rs]
    by simp
qed

lemma length_failed:
  "length result - length (filter isFulfilled result) = length (filter (\<lambda>r. \<not> isFulfilled r) result)"
  using sum_length_filter_compl[of isFulfilled result] by simp

lemma first_failure:
  "(case filter (\<lambda>r. \<not> isFulfilled r) result of
      RejectedWith reason # x \<Rightarrow> f reason
    | _ \<Rightarrow> g)
   = (case find (\<lambda>r. \<not> isFulfilled r) result of
        Some (RejectedWith reason) \<Rightarrow> f reason
      | _ \<Rightarrow> g)"
proof (induction result)
  case Nil
  show ?case by simp
next
  case (Cons a result)
  then show ?case by (cases a) simp_all
qed

lemma deployResources_batch:
  assumes "entries changes operation type = Some es" and "es \<noteq> []"
    and "allSettled request enc operation type ov (filter (kept filterFn) es) s = (result, evs, s')"
  shows "deployResources request enc changes operation type ov filterFn s
           = ((case find (\<lambda>r. \<not> isFulfilled r) result of
                 Some (RejectedWith reason) \<Rightarrow> Inl reason
               | _ \<Rightarrow> Inr ()),
              evs @ batchLogs operation type ov filterFn es result, s')"
proof -
  have "deployResources request enc changes operation type ov filterFn s
          = (case filter (\<lambda>r. \<not> isFulfilled r) result of
               RejectedWith reason # x \<Rightarrow>
                 (Inl reason, evs @ batchLogs operation type ov filterFn es result, s')
             | _ \<Rightarrow> (Inr (), evs @ batchLogs operation type ov filterFn es result, s'))"
    using assms
    by (simp add: deployResources_def Let_def batchLogs_def length_failed
             split: list.splits settled.splits)
  also have "\<dots> = (case find (\<lambda>r. \<not> isFulfilled r) result of
               Some (RejectedWith reason) \<Rightarrow>
                 (Inl reason, evs @ batchLogs operation type ov filterFn es result, s')
             | _ \<Rightarrow> (Inr (), evs @ batchLogs operation type ov filterFn es result, s'))"
    by (rule first_failure)
  finally show ?thesis
    by (simp split: option.splits settled.splits)
qed

lemma requestsOf_batchLogs: "requestsOf (batchLogs operation type ov filterFn es result) = []"
  by (simp add: batchLogs_def requestsOf_def)

lemma deployResources_requests:
  "requestsOf (fst (snd (deployResources request enc changes operation type ov filterFn s)))
     = phaseCalls enc changes (operation, type, ov, filterFn)"
proof (cases "entries changes operation type")
  case None
  then show ?thesis by (simp add: deployResources_def requestsOf_def)
next
  case (Some es)
  show ?thesis
  proof (cases "es = []")
    case True
    then show ?thesis using Some by (simp add: deployResources_def requestsOf_def callsFor_Nil)
  next
    case False
    obtain result evs s' where
      a: "allSettled request enc operation type ov (filter (kept filterFn) es) s = (result, evs, s')"
      by (cases "allSettled request enc operation type ov (filter (kept filterFn) es) s") auto
    show ?thesis
      using Some allSettled_events[OF a]
      by (simp add: deployResources_batch[OF Some False a] requestsOf_append requestsOf_batchLogs
                    requestsOf_callsFor)
  qed
qed

lemma runPhases_append:
  assumes "runPhases request enc changes ps s = (Inr (), evs, s1)"
  shows "runPhases request enc changes (ps @ qs) s
           = (case runPhases request enc changes qs s1 of (r, evs', s2) \<Rightarrow> (r, evs @ evs', s2))"
  using assms
proof (induction ps arbitrary: s evs)
  case Nil
  then show ?case by (simp split: prod.splits)
next
  case (Cons p ps)
  obtain operation type ov filterFn where p: "p = (operation, type, ov, filterFn)"
    by (cases p) auto
  obtain r0 e0 s0 where d: "deployResources request enc changes operation type ov filterFn s = (r0, e0, s0)"
    by (cases "deployResources request enc changes operation type ov filterFn s") auto
  obtain r1 e1 s1' where rp: "runPhases request enc changes ps s0 = (r1, e1, s1')"
    by (cases "runPhases request enc changes ps s0") auto
  have r0: "r0 = Inr ()"
    using Cons.prems p d by (cases r0) auto
  have "r1 = Inr ()" "evs = e0 @ e1" "s1' = s1"
    using Cons.prems p d r0 rp by simp_all
  then have "runPhases request enc changes (ps @ qs) s0
           = (case runPhases request enc changes qs s1 of (r, evs', s2) \<Rightarrow> (r, e1 @ evs', s2))"
    using Cons.IH[of s0 e1] rp by simp
  then show ?case
    using p d r0 \<open>evs = e0 @ e1\<close> by (simp split: prod.splits)
qed

lemma runPhases_requests:
  assumes "runPhases request enc changes ps s = (r, evs, s')"
  shows "\<exists>k. k \<le> length ps \<and> (ps \<noteq> [] \<longrightarrow> 0 < k) \<and> (r = Inr () \<longrightarrow> k = length ps)
           \<and> requestsOf evs = concat (map (phaseCalls enc changes) (take k ps))"
  using assms
proof (induction ps arbitrary: s r evs s')
  case Nil
  then show ?case by (simp add: requestsOf_def)
next
  case (Cons p ps)
  obtain operation type ov filterFn where p: "p = (operation, type, ov, filterFn)"
    by (cases p) auto
  obtain r0 e0 s0 where d: "deployResources request enc changes operation type ov filterFn s = (r0, e0, s0)"
    by (cases "deployResources request enc changes operation type ov filterFn s") auto
  have e0: "requestsOf e0 = phaseCalls enc changes p"
    using deployResources_requests[of request enc changes operation type ov filterFn s] d p by simp
  show ?case
  proof (cases r0)
    case (Inl e)
    then have "r = Inl e" "evs = e0"
      using Cons.prems p d by simp_all
    then show ?thesis
      using e0 by (intro exI[of _ 1]) simp
  next
    case (Inr u)
    obtain r1 e1 s1 where rp: "runPhases request enc changes ps s0 = (r1, e1, s1)"
      by (cases "runPhases request enc changes ps s0") auto
    have "r = r1" "evs = e0 @ e1"
      using Cons.prems p d Inr rp by simp_all
    moreover obtain k where "k \<le> length ps" "r1 = Inr () \<longrightarrow> k = length ps"
        "requestsOf e1 = concat (map (phaseCalls enc changes) (take k ps))"
      using Cons.IH[OF rp] by blast
    ultimately show ?thesis
      using e0 by (intro exI[of _ "Suc k"]) (simp add: requestsOf_append)
  qed
qed

text \<open>
  C6. With both \<open>noDeletions\<close> and \<open>recreateChanged\<close> set, \<open>deploy\<close> raises the option
  conflict, hands no request to the client and leaves the server as it was.
\<close>

theorem option_conflict:
  assumes "noDeletions opts" and "recreateChanged opts"
  shows "fst (deploy request enc changes opts s) = Inl OptionConflict
       \<and> requestsOf (fst (snd (deploy request enc changes opts s))) = []
       \<and> snd (snd (deploy request enc changes opts s)) = s"
  using assms by (simp add: deploy_def Let_def requestsOf_def)

theorem option_conflict_witness:
  "noDeletions (defaults\<lparr>noDeletions := True, recreateChanged := True\<rparr>)
   \<and> recreateChanged (defaults\<lparr>noDeletions := True, recreateChanged := True\<rparr>)
   \<and> fst (deploy accepting plain exCreate (defaults\<lparr>noDeletions := True, recreateChanged := True\<rparr>) ())
       = Inl OptionConflict
   \<and> requestsOf (fst (snd (deploy accepting plain exCreate
                              (defaults\<lparr>noDeletions := True, recreateChanged := True\<rparr>) ()))) = []"
  using option_conflict[of "defaults\<lparr>noDeletions := True, recreateChanged := True\<rparr>"
                          accepting plain exCreate "()"]
  by (simp add: defaults_def)

lemma deploy_requests:
  assumes "\<not> (noDeletions opts \<and> recreateChanged opts)"
    and "deploy request enc changes opts s = (r, evs, s')"
  shows "\<exists>k. 0 < k \<and> k \<le> length (deployPhases changes opts)
            \<and> (r = Inr () \<longrightarrow> k = length (deployPhases changes opts))
            \<and> requestsOf evs = concat (map (phaseCalls enc changes) (take k (deployPhases changes opts)))"
proof -
  obtain r0 e0 s0 where
    rp: "runPhases request enc changes (deployPhases changes opts) s = (r0, e0, s0)"
    by (cases "runPhases request enc changes (deployPhases changes opts) s") auto
  have ne: "deployPhases changes opts \<noteq> []"
    by (simp add: deployPhases_def)
  have "r = r0 \<and> requestsOf evs = requestsOf e0"
    using assms rp
    by (cases r0) (auto simp: deploy_def Let_def requestsOf_def)
  then show ?thesis
    using runPhases_requests[OF rp] ne by auto
qed

lemma url_vhost_queue:
  "url enc [''/api/queues/'', ''/'', ''''] [b, c] \<noteq> url enc [''/api/vhosts/'', ''''] [a]"
  by (simp add: url_def)

lemma nth_append_member:
  assumes "j < length (xs @ ys)" "(xs @ ys) ! j = y" "y \<notin> set xs" "x \<in> set xs"
  shows "\<exists>i<j. (xs @ ys) ! i = x"
proof -
  have j: "length xs \<le> j"
  proof (rule ccontr)
    assume "\<not> length xs \<le> j"
    then have "j < length xs" by simp
    then have "(xs @ ys) ! j \<in> set xs" by (simp add: nth_append)
    then show False using assms(2,3) by simp
  qed
  obtain i where "i < length xs" "xs ! i = x"
    using assms(4) by (auto simp: in_set_conv_nth)
  then have "i < j" "(xs @ ys) ! i = x"
    using j by (simp_all add: nth_append)
  then show ?thesis by blast
qed

text \<open>
  C9. Without the option conflict, the requests of a run are those of the first calls of
  \<open>deployResources\<close>, each batch whole before the next, the first four being the added
  vhosts, users, exchanges and queues. The request that creates an added vhost is always
  handed to the client, the one that creates an added queue is whenever the run ends
  without error, and wherever the request that creates the queue stands among the
  requests, the one that creates the vhost stands strictly before it.
\<close>

theorem creation_order:
  assumes "\<not> (noDeletions opts \<and> recreateChanged opts)"
    and "deploy request enc changes opts s = (r, evs, s')"
    and "v \<in> set (added changes Vhosts)"
    and "q \<in> set (added changes Queues)"
  shows "(\<exists>k. 0 < k \<and> k \<le> length (deployPhases changes opts)
            \<and> (r = Inr () \<longrightarrow> k = length (deployPhases changes opts))
            \<and> requestsOf evs = concat (map (phaseCalls enc changes) (take k (deployPhases changes opts))))
       \<and> take 4 (deployPhases changes opts)
           = [(Added, Vhosts, None, None), (Added, Users, None, None),
              (Added, Exchanges, None, None), (Added, Queues, None, None)]
       \<and> Request PUT (url enc [''/api/vhosts/'', ''''] [getProp (resourceArgOf v) ''name''])
           (resourceArgOf v) \<in> set (requestsOf evs)
       \<and> (r = Inr () \<longrightarrow>
            Request PUT (url enc [''/api/queues/'', ''/'', '''']
                           [getProp (resourceArgOf q) ''vhost'', getProp (resourceArgOf q) ''name''])
              (resourceArgOf q) \<in> set (requestsOf evs))
       \<and> (\<forall>j < length (requestsOf evs).
            requestsOf evs ! j
              = Request PUT (url enc [''/api/queues/'', ''/'', '''']
                               [getProp (resourceArgOf q) ''vhost'', getProp (resourceArgOf q) ''name''])
                  (resourceArgOf q)
            \<longrightarrow> (\<exists>i < j. requestsOf evs ! i
                           = Request PUT (url enc [''/api/vhosts/'', '''']
                                            [getProp (resourceArgOf v) ''name''])
                               (resourceArgOf v)))"
proof -
  let ?ps = "deployPhases changes opts"
  let ?cv = "Request PUT (url enc [''/api/vhosts/'', ''''] [getProp (resourceArgOf v) ''name''])
               (resourceArgOf v)"
  let ?cq = "Request PUT (url enc [''/api/queues/'', ''/'', '''']
                           [getProp (resourceArgOf q) ''vhost'', getProp (resourceArgOf q) ''name''])
               (resourceArgOf q)"
  let ?V = "phaseCalls enc changes (Added, Vhosts, None, None)"
  let ?Q = "phaseCalls enc changes (Added, Queues, None, None)"
  obtain k where k: "0 < k" "k \<le> length ?ps" "r = Inr () \<longrightarrow> k = length ?ps"
      "requestsOf evs = concat (map (phaseCalls enc changes) (take k ?ps))"
    using deploy_requests[OF assms(1,2)] by blast
  have t4: "take 4 ?ps = [(Added, Vhosts, None, None), (Added, Users, None, None),
              (Added, Exchanges, None, None), (Added, Queues, None, None)]"
    by (simp add: deployPhases_def)
  obtain rest where ps: "?ps = (Added, Vhosts, None, None) # rest"
    by (simp add: deployPhases_def)
  obtain k' where k': "k = Suc k'"
    using k(1) by (cases k) auto
  have tr: "requestsOf evs = ?V @ concat (map (phaseCalls enc changes) (take k' rest))"
    unfolding k(4) ps k' by simp
  have V: "?V = map (\<lambda>x. Request PUT (url enc [''/api/vhosts/'', ''''] [getProp (resourceArgOf x) ''name''])
                          (resourceArgOf x)) (added changes Vhosts)"
    by (simp add: callsFor_def kept_def)
  have Q: "?Q = map (\<lambda>x. Request PUT (url enc [''/api/queues/'', ''/'', '''']
                           [getProp (resourceArgOf x) ''vhost'', getProp (resourceArgOf x) ''name''])
                          (resourceArgOf x)) (added changes Queues)"
    by (simp add: callsFor_def kept_def)
  have cvV: "?cv \<in> set ?V"
    unfolding V using assms(3) by (simp add: image_iff) blast
  have cqV: "?cq \<notin> set ?V"
    unfolding V using url_vhost_queue[of enc] by (auto simp: image_iff)
  have 3: "?cv \<in> set (requestsOf evs)"
    unfolding tr using cvV by simp
  have 4: "r = Inr () \<longrightarrow> ?cq \<in> set (requestsOf evs)"
  proof
    assume "r = Inr ()"
    then have "k = length ?ps" using k(3) by simp
    then have "requestsOf evs = concat (map (phaseCalls enc changes) ?ps)"
      using k(4) by simp
    moreover have "(Added, Queues, None, None) \<in> set ?ps"
      by (simp add: deployPhases_def)
    moreover have "?cq \<in> set ?Q"
      unfolding Q using assms(4) by (simp add: image_iff) blast
    ultimately show "?cq \<in> set (requestsOf evs)"
      by (simp del: phaseCalls.simps) blast
  qed
  have 5: "\<forall>j < length (requestsOf evs). requestsOf evs ! j = ?cq
             \<longrightarrow> (\<exists>i < j. requestsOf evs ! i = ?cv)"
    unfolding tr using nth_append_member[OF _ _ cqV cvV] by blast
  show ?thesis
    using k t4 3 4 5 by blast
qed

lemma ex_create_run:
  "deploy accepting plain exCreate defaults ()
   = (Inr (),
      [WarnVhostsLackPermissions,
       Request PUT ''/api/vhosts/v1'' vh1, Request PUT ''/api/vhosts/v2'' vh2,
       LogBatch Added None Vhosts 2 0,
       Request PUT ''/api/users/bob'' bob, LogBatch Added None Users 1 0,
       Request PUT ''/api/queues/v1/jobs'' qv1, LogBatch Added None Queues 1 0], ())"
  by code_simp

theorem creation_order_witness:
  "vh1 \<in> set (added exCreate Vhosts) \<and> qv1 \<in> set (added exCreate Queues)
   \<and> requestsOf (fst (snd (deploy accepting plain exCreate defaults ())))
       = [Request PUT ''/api/vhosts/v1'' vh1, Request PUT ''/api/vhosts/v2'' vh2,
          Request PUT ''/api/users/bob'' bob, Request PUT ''/api/queues/v1/jobs'' qv1]
   \<and> Request PUT (url plain [''/api/vhosts/'', ''''] [getProp (resourceArgOf vh1) ''name''])
        (resourceArgOf vh1) = Request PUT ''/api/vhosts/v1'' vh1
   \<and> Request PUT (url plain [''/api/queues/'', ''/'', '''']
                     [getProp (resourceArgOf qv1) ''vhost'', getProp (resourceArgOf qv1) ''name''])
        (resourceArgOf qv1) = Request PUT ''/api/queues/v1/jobs'' qv1
   \<and> [Request PUT ''/api/vhosts/v1'' vh1, Request PUT ''/api/vhosts/v2'' vh2,
       Request PUT ''/api/users/bob'' bob, Request PUT ''/api/queues/v1/jobs'' qv1] ! 3
       = Request PUT ''/api/queues/v1/jobs'' qv1
   \<and> (\<exists>i < 3. [Request PUT ''/api/vhosts/v1'' vh1, Request PUT ''/api/vhosts/v2'' vh2,
                  Request PUT ''/api/users/bob'' bob, Request PUT ''/api/queues/v1/jobs'' qv1] ! i
                  = Request PUT ''/api/vhosts/v1'' vh1)"
proof -
  let ?tr = "[Request PUT ''/api/vhosts/v1'' vh1, Request PUT ''/api/vhosts/v2'' vh2,
              Request PUT ''/api/users/bob'' bob, Request PUT ''/api/queues/v1/jobs'' qv1]"
  have c: "\<not> (noDeletions defaults \<and> recreateChanged defaults)"
    by (simp add: defaults_def)
  have v: "vh1 \<in> set (added exCreate Vhosts)" and q: "qv1 \<in> set (added exCreate Queues)"
    by (simp_all add: exCreate_def noChanges_def)
  have tr: "requestsOf (fst (snd (deploy accepting plain exCreate defaults ()))) = ?tr"
    by (simp add: ex_create_run requestsOf_def)
  have cv: "Request PUT (url plain [''/api/vhosts/'', ''''] [getProp (resourceArgOf vh1) ''name''])
        (resourceArgOf vh1) = Request PUT ''/api/vhosts/v1'' vh1"
    by code_simp
  have cq: "Request PUT (url plain [''/api/queues/'', ''/'', '''']
                     [getProp (resourceArgOf qv1) ''vhost'', getProp (resourceArgOf qv1) ''name''])
        (resourceArgOf qv1) = Request PUT ''/api/queues/v1/jobs'' qv1"
    by code_simp
  note t = creation_order[OF c ex_create_run v q, unfolded cv cq]
  have req: "requestsOf [WarnVhostsLackPermissions,
       Request PUT ''/api/vhosts/v1'' vh1, Request PUT ''/api/vhosts/v2'' vh2,
       LogBatch Added None Vhosts 2 0,
       Request PUT ''/api/users/bob'' bob, LogBatch Added None Users 1 0,
       Request PUT ''/api/queues/v1/jobs'' qv1, LogBatch Added None Queues 1 0] = ?tr"
    by (simp add: requestsOf_def)
  have len: "length ?tr = 4"
    by simp
  from t have o: "\<forall>j < 4. ?tr ! j = Request PUT ''/api/queues/v1/jobs'' qv1
        \<longrightarrow> (\<exists>i < j. ?tr ! i = Request PUT ''/api/vhosts/v1'' vh1)"
    unfolding req len by (elim conjE)
  have at3: "?tr ! 3 = Request PUT ''/api/queues/v1/jobs'' qv1"
    by simp
  have "(3::nat) < 4"
    by simp
  with o at3 have before: "\<exists>i < 3. ?tr ! i = Request PUT ''/api/vhosts/v1'' vh1"
    by blast
  show ?thesis
    using v q tr cv cq at3 before by (intro conjI)
qed

text \<open>
  C7. In a batch every entry that the filter keeps is dispatched and settles, whatever the
  outcome of the others; the numbers of fulfilled and rejected requests add up to the
  kept entries, and the kept and the skipped entries to all of them; the batch writes
  these numbers and, when a request was rejected, raises the reason of the first
  rejection. Then the run ends with that reason: after the events of the batch no
  request of a later call is handed to the client.
\<close>

theorem batch_partial_failure:
  assumes "entries changes operation type = Some es" and "es \<noteq> []"
    and "allSettled request enc operation type operationOverride (filter (kept filterFn) es) s
           = (result, evs, s')"
  shows "length result = length (filter (kept filterFn) es)
       \<and> evs = callsFor enc operation type operationOverride (filter (kept filterFn) es)
       \<and> length (filter isFulfilled result) + length (filter (\<lambda>r. \<not> isFulfilled r) result)
           = length (filter (kept filterFn) es)
       \<and> length (filter (kept filterFn) es) + length (filter (\<lambda>r. \<not> kept filterFn r) es) = length es
       \<and> deployResources request enc changes operation type operationOverride filterFn s
           = ((case find (\<lambda>r. \<not> isFulfilled r) result of
                 Some (RejectedWith reason) \<Rightarrow> Inl reason
               | _ \<Rightarrow> Inr ()),
              evs @ batchLogs operation type operationOverride filterFn es result, s')
       \<and> (\<forall>reason ps qs s0 evs0.
            find (\<lambda>r. \<not> isFulfilled r) result = Some (RejectedWith reason) \<and>
            runPhases request enc changes ps s0 = (Inr (), evs0, s)
            \<longrightarrow> runPhases request enc changes
                  (ps @ (operation, type, operationOverride, filterFn) # qs) s0
                = (Inl reason,
                   evs0 @ evs @ batchLogs operation type operationOverride filterFn es result, s'))
       \<and> (\<forall>reason opts ps qs s0 evs0.
            find (\<lambda>r. \<not> isFulfilled r) result = Some (RejectedWith reason) \<and>
            \<not> (noDeletions opts \<and> recreateChanged opts) \<and>
            deployPhases changes opts = ps @ (operation, type, operationOverride, filterFn) # qs \<and>
            runPhases request enc changes ps s0 = (Inr (), evs0, s)
            \<longrightarrow> fst (deploy request enc changes opts s0) = Inl reason
                \<and> requestsOf (fst (snd (deploy request enc changes opts s0))) = requestsOf evs0 @ evs
                \<and> snd (snd (deploy request enc changes opts s0)) = s')"
proof -
  let ?p = "(operation, type, operationOverride, filterFn)"
  let ?logs = "batchLogs operation type operationOverride filterFn es result"
  note ev = allSettled_events[OF assms(3)]
  have 1: "length result = length (filter (kept filterFn) es)"
    and 2: "evs = callsFor enc operation type operationOverride (filter (kept filterFn) es)"
    using ev by simp_all
  have 3: "length (filter isFulfilled result) + length (filter (\<lambda>r. \<not> isFulfilled r) result)
           = length (filter (kept filterFn) es)"
    using sum_length_filter_compl[of isFulfilled result] 1 by simp
  have 4: "length (filter (kept filterFn) es) + length (filter (\<lambda>r. \<not> kept filterFn r) es) = length es"
    by (rule sum_length_filter_compl)
  note 5 = deployResources_batch[OF assms]
  have 6: "runPhases request enc changes (ps @ ?p # qs) s0 = (Inl reason, evs0 @ evs @ ?logs, s')"
    if "find (\<lambda>r. \<not> isFulfilled r) result = Some (RejectedWith reason)"
      and "runPhases request enc changes ps s0 = (Inr (), evs0, s)"
    for reason ps qs s0 evs0
    using that(1) by (simp add: runPhases_append[OF that(2)] 5)
  have 7: "fst (deploy request enc changes opts s0) = Inl reason
                \<and> requestsOf (fst (snd (deploy request enc changes opts s0))) = requestsOf evs0 @ evs
                \<and> snd (snd (deploy request enc changes opts s0)) = s'"
    if "find (\<lambda>r. \<not> isFulfilled r) result = Some (RejectedWith reason)"
      and "\<not> (noDeletions opts \<and> recreateChanged opts)"
      and "deployPhases changes opts = ps @ ?p # qs"
      and "runPhases request enc changes ps s0 = (Inr (), evs0, s)"
    for reason opts ps qs s0 evs0
  proof -
    have "runPhases request enc changes (deployPhases changes opts) s0
            = (Inl reason, evs0 @ evs @ ?logs, s')"
      unfolding that(3) using that(1,4) by (rule 6)
    moreover have "requestsOf evs = evs"
      unfolding 2 by (rule requestsOf_callsFor)
    ultimately show ?thesis
      using that(2)
      by (auto simp: deploy_def Let_def requestsOf_append requestsOf_batchLogs)
         (simp_all add: requestsOf_def)
  qed
  show ?thesis
    using 1 2 3 4 5 6 7 by blast
qed

lemma ex_create_settled:
  "allSettled (rejecting [''/api/vhosts/v1'']) plain Added Vhosts None
     (filter (kept None) [vh1, vh2]) ()
   = ([RejectedWith (Rejected (JStr ''/api/vhosts/v1'')), Fulfilled],
      [Request PUT ''/api/vhosts/v1'' vh1, Request PUT ''/api/vhosts/v2'' vh2], ())"
  by code_simp

lemma ex_create_entries: "entries exCreate Added Vhosts = Some [vh1, vh2]"
  by (simp add: exCreate_def noChanges_def)

theorem batch_partial_failure_witness:
  "entries exCreate Added Vhosts = Some [vh1, vh2] \<and> [vh1, vh2] \<noteq> []
   \<and> allSettled (rejecting [''/api/vhosts/v1'']) plain Added Vhosts None
        (filter (kept None) [vh1, vh2]) ()
      = ([RejectedWith (Rejected (JStr ''/api/vhosts/v1'')), Fulfilled],
         [Request PUT ''/api/vhosts/v1'' vh1, Request PUT ''/api/vhosts/v2'' vh2], ())
   \<and> deployResources (rejecting [''/api/vhosts/v1'']) plain exCreate Added Vhosts None None ()
      = (Inl (Rejected (JStr ''/api/vhosts/v1'')),
         [Request PUT ''/api/vhosts/v1'' vh1, Request PUT ''/api/vhosts/v2'' vh2,
          LogBatch Added None Vhosts 1 1], ())
   \<and> fst (deploy (rejecting [''/api/vhosts/v1'']) plain exCreate defaults ())
      = Inl (Rejected (JStr ''/api/vhosts/v1''))
   \<and> requestsOf (fst (snd (deploy (rejecting [''/api/vhosts/v1'']) plain exCreate defaults ())))
      = [Request PUT ''/api/vhosts/v1'' vh1, Request PUT ''/api/vhosts/v2'' vh2]"
proof -
  have ne: "[vh1, vh2] \<noteq> []" by simp
  note t = batch_partial_failure[OF ex_create_entries ne ex_create_settled]
  have d: "deployResources (rejecting [''/api/vhosts/v1'']) plain exCreate Added Vhosts None None ()
      = (Inl (Rejected (JStr ''/api/vhosts/v1'')),
         [Request PUT ''/api/vhosts/v1'' vh1, Request PUT ''/api/vhosts/v2'' vh2,
          LogBatch Added None Vhosts 1 1], ())"
    using t by (simp add: batchLogs_def kept_def)
  have f: "find (\<lambda>r. \<not> isFulfilled r) [RejectedWith (Rejected (JStr ''/api/vhosts/v1'')), Fulfilled]
             = Some (RejectedWith (Rejected (JStr ''/api/vhosts/v1'')))"
    by simp
  have c: "\<not> (noDeletions defaults \<and> recreateChanged defaults)"
    by (simp add: defaults_def)
  obtain qs where ph: "deployPhases exCreate defaults = [] @ (Added, Vhosts, None, None) # qs"
    by (simp add: deployPhases_def)
  have r0: "runPhases (rejecting [''/api/vhosts/v1'']) plain exCreate [] () = (Inr (), [], ())"
    by simp
  have "fst (deploy (rejecting [''/api/vhosts/v1'']) plain exCreate defaults ())
          = Inl (Rejected (JStr ''/api/vhosts/v1''))
      \<and> requestsOf (fst (snd (deploy (rejecting [''/api/vhosts/v1'']) plain exCreate defaults ())))
          = requestsOf [] @ [Request PUT ''/api/vhosts/v1'' vh1, Request PUT ''/api/vhosts/v2'' vh2]
      \<and> snd (snd (deploy (rejecting [''/api/vhosts/v1'']) plain exCreate defaults ())) = ()"
    using t f c ph r0 by blast
  then show ?thesis
    using ex_create_entries ex_create_settled d by (simp add: requestsOf_def)
qed

lemma notInDeletedVhost_skips:
  assumes "deleted changes Vhosts \<noteq> []"
    and "list_all (\<lambda>d. getProp d ''vhost'' = None) (deleted changes Vhosts)"
    and "getProp p ''vhost'' \<noteq> None"
  shows "\<not> notInDeletedVhost changes p"
proof -
  have "strictEq (getProp p ''vhost'') None = False"
    using assms(3) by (cases "getProp p ''vhost''") simp_all
  then have "find (\<lambda>d. strictEq (getProp p ''vhost'') (getProp d ''vhost'')) (deleted changes Vhosts)
             = None"
    using assms(2) by (simp add: find_None_iff list_all_iff)
  then show ?thesis
    using assms(1) by (simp add: notInDeletedVhost_def)
qed

text \<open>
  C5. A run that deletes vhost \<open>v1\<close> and a permission of vhost \<open>v2\<close>, which is not
  deleted: the deletion of the permission is skipped, and no request for it is handed to
  the client.
\<close>

theorem cascade_skips_other_vhost:
  "deleted exCascade Vhosts = [vh1] \<and> deleted exCascade Permissions = [permV2]
   \<and> getProp vh1 ''name'' = Some (JStr ''v1'') \<and> getProp permV2 ''vhost'' = Some (JStr ''v2'')
   \<and> deploy accepting plain exCascade defaults ()
       = (Inr (),
          [LogSkipped 1 Deleted Permissions, LogBatch Deleted None Permissions 0 0,
           Request DELETE ''/api/vhosts/v1'' vh1, LogBatch Deleted None Vhosts 1 0], ())"
  by code_simp

lemma changedResourceCount_eq:
  "changedResourceCount changes
     = length (changed changes Vhosts) + length (changed changes Queues)
       + length (changed changes Exchanges) + length (changed changes Bindings)"
  by (simp add: changedResourceCount_def allTypes_def mutableResources_def)

text \<open>
  C8. A run with one changed vhost and one changed exchange, \<open>recreateChanged\<close> unset:
  the warning counts two ignored resources, one more than the changed exchanges, queues
  and bindings, and the changed vhost is not ignored but updated.
\<close>

theorem changed_count_includes_vhosts:
  "changed exChanged Vhosts = [(vh1, vh1')]
   \<and> length (changed exChanged Exchanges) + length (changed exChanged Queues)
       + length (changed exChanged Bindings) = 1
   \<and> deploy accepting plain exChanged defaults ()
       = (Inr (),
          [WarnIgnoringChanged 2,
           Request PUT ''/api/vhosts/v1'' vh1',
           LogBatch Changed None Vhosts 1 0], ())"
  by code_simp

end
